theory Spec2Isabelle
  imports Main "HOL-Library.Word" "HOL-Library.Sublist"
begin

unbundle bit_operations_syntax

section \<open>The CUDA worker of ethminer (libethash-cuda/CUDAMiner.cpp)\<close>

text \<open>
  The worker is embedded as state-passing functions over a record \<open>miner\<close> of the
  object's members. Everything outside the worker (the CUDA runtime, the device, the other
  threads, the farm) is an environment \<open>env\<close>: a record of time-indexed observations. The
  model keeps a \<open>clock\<close> that counts the observations made so far, and a \<open>trace\<close> of
  every call that leaves the worker and of every observation that enters it, in program
  order. Exceptions and loops that need not end are outcomes.
\<close>

subsection \<open>Data\<close>

text \<open>
  \<open>WorkPackage\<close> (libethcore): the fields the worker reads. \<open>boundary\<close> holds the
  value \<open>(u256)boundary\<close> of the 32-byte hash and \<open>header\<close> the 32 header bytes as one
  number.
\<close>

record WorkPackage =
  header :: "256 word"
  epoch :: int
  boundary :: "256 word"
  startNonce :: "64 word"

text \<open>One entry of a result buffer, and the pinned buffer of a stream slot.\<close>

record Search_result =
  gid :: "32 word"
  mix :: "256 word"

record Search_results =
  count :: "32 word"
  result :: "Search_result list"

text \<open>\<open>Solution{nonce, mix, w, steady_clock::now(), m_index}\<close>.\<close>

record Solution =
  nonce :: "64 word"
  mixHash :: "256 word"
  work :: WorkPackage
  tstamp :: nat
  midx :: nat

record cudaDeviceProp =
  name :: string
  major :: int
  minor :: int
  totalGlobalMem :: "64 word"

text \<open>\<open>ethash::epoch_context\<close>: the light cache is named by an identifier of its bytes.\<close>

record epoch_context =
  light_cache_num_items :: int
  light_cache :: nat
  full_dataset_num_items :: int

datatype cudaError = cudaSuccess | cudaErrorInsufficientDriver | cudaErrorOther string

datatype exn =
    cuda_runtime_error string
  | std_runtime_error string
  | out_of_bounds

datatype 'a outcome = Returned 'a | Raised exn | OutOfFuel

text \<open>
  The lines written to the log by \<open>init\<close>. The line for insufficient memory carries the
  device name, the memory found and the memory required.
\<close>

datatype log_line =
    LogExiting
  | LogInitialising nat
  | LogUsingDevice string int int
  | LogSetDevice
  | LogInsufficientMemory string "64 word" "64 word"
  | LogResettingDevice
  | LogAllocatingLight "64 word"
  | LogGeneratingBuffers
  | LogGeneratingDag "32 word" "64 word" "64 word"
  | LogGeneratedDag "32 word"

datatype buffer_kind = LightBuffer | DagBuffer

text \<open>
  The trace: calls of the CUDA runtime and of the kernels' host wrappers, hand-offs to the
  farm, log lines, and the observations of the environment (prefix \<open>Obs\<close>).
\<close>

datatype event =
    CudaGetDeviceProperties "32 word"
  | CudaSetDevice "32 word"
  | CudaDeviceReset
  | CudaSetDeviceFlags "32 word"
  | CudaDeviceSetCacheConfig
  | CudaMalloc buffer_kind "64 word"
  | CudaMemcpy nat nat "64 word"
  | SetConstants nat int nat int
  | CudaMallocHost nat
  | CudaStreamCreateWithFlags nat
  | EthashGenerateDag "64 word" "32 word" "32 word" nat
  | SetHeader "256 word"
  | SetTarget "64 word"
  | RunEthashSearch "32 word" "32 word" nat "64 word" "32 word"
  | CudaStreamSynchronize nat
  | SubmitProof Solution
  | UpdateHashRate "32 word" "32 word"
  | Log log_line
  | TimedWait
  | DagLoadIndexIncrement
  | NotifyAll
  | ObsDagLoadIndex nat
  | ObsShouldStop bool
  | ObsPaused bool
  | ObsNewWork bool
  | ObsDeviceCount cudaError int
  | ObsKernelResults nat Search_results
  | ObsWork "WorkPackage option"

text \<open>
  The environment. Every field but the last five is indexed by the clock.
  \<^item> \<open>shouldStop\<close>, \<open>paused\<close>: what \<open>shouldStop()\<close> and \<open>paused()\<close> return;
  \<^item> \<open>kicked\<close>: whether another thread ran \<open>kick_miner\<close> since the last access to
    \<open>m_new_work\<close>;
  \<^item> \<open>dagLoadIndex\<close>: the value read from the shared \<open>s_dagLoadIndex\<close>;
  \<^item> \<open>cuda_status\<close>: \<open>None\<close> when the runtime call made now returns \<open>cudaSuccess\<close>,
    else the text of the \<open>cuda_runtime_error\<close> that \<open>CUDA_SAFE_CALL\<close> throws;
  \<^item> \<open>malloc_result\<close>: the device pointer \<open>cudaMalloc\<close> stores (0 is \<open>nullptr\<close>);
  \<^item> \<open>kernel_results\<close>: what the host finds in a slot's buffer once its stream is idle;
  \<^item> \<open>getWork\<close>: what \<open>work()\<close> returns, \<open>None\<close> for a package that tests false;
  \<^item> \<open>cudaGetDeviceCount\<close>, \<open>cudaDriverGetVersion\<close>, \<open>steady_clock_now\<close>;
  \<^item> \<open>deviceProps\<close>, the ethash library (\<open>get_global_epoch_context\<close>,
    \<open>get_light_cache_size\<close>, \<open>get_full_dataset_size\<close>) and \<open>to_string\<close>.
\<close>

record env =
  shouldStop :: "nat \<Rightarrow> bool"
  paused :: "nat \<Rightarrow> bool"
  kicked :: "nat \<Rightarrow> bool"
  dagLoadIndex :: "nat \<Rightarrow> nat"
  cuda_status :: "nat \<Rightarrow> string option"
  malloc_result :: "nat \<Rightarrow> nat"
  kernel_results :: "nat \<Rightarrow> Search_results"
  getWork :: "nat \<Rightarrow> WorkPackage option"
  cudaGetDeviceCount :: "nat \<Rightarrow> cudaError \<times> int"
  cudaDriverGetVersion :: "nat \<Rightarrow> int"
  steady_clock_now :: "nat \<Rightarrow> nat"
  deviceProps :: "32 word \<Rightarrow> cudaDeviceProp"
  get_global_epoch_context :: "int \<Rightarrow> epoch_context"
  get_light_cache_size :: "int \<Rightarrow> 64 word"
  get_full_dataset_size :: "int \<Rightarrow> 64 word"
  to_string :: "int \<Rightarrow> string"

text \<open>
  The static members set by \<open>configureGPU\<close> and \<open>setDevices\<close>, and the two constants the
  file uses without defining them (\<open>MAX_SEARCH_RESULTS\<close>, \<open>DAG_LOAD_MODE_SEQUENTIAL\<close>),
  taken as parameters. \<open>s_devices\<close> maps a worker index to its entry of the vector.
\<close>

record statics =
  s_dagLoadMode :: "32 word"
  s_blockSize :: "32 word"
  s_gridSize :: "32 word"
  s_numStreams :: "32 word"
  s_scheduleFlag :: "32 word"
  s_parallelHash :: "32 word"
  s_devices :: "nat \<Rightarrow> int"
  MAX_SEARCH_RESULTS :: "32 word"
  DAG_LOAD_MODE_SEQUENTIAL :: "32 word"

text \<open>
  The members of a \<open>CUDAMiner\<close>. Device pointers are numbers, 0 for \<open>nullptr\<close>;
  \<open>m_light\<close> is indexed by device and \<open>m_search_buf\<close> by stream slot (the contents of the
  slot's pinned buffer).
\<close>

record miner =
  m_index :: nat
  m_device_num :: "32 word"
  m_light :: "32 word \<Rightarrow> nat"
  m_dag :: nat
  m_dag_size :: "32 word"
  m_current_target :: "64 word"
  m_batch_size :: "32 word"
  m_streams_batch_size :: "32 word"
  m_new_work :: bool
  m_search_buf :: "nat \<Rightarrow> Search_results"
  clock :: nat
  trace :: "event list"

subsection \<open>Primitive steps\<close>

definition emit :: "event \<Rightarrow> miner \<Rightarrow> miner" where
  "emit e m = m\<lparr>trace := trace m @ [e]\<rparr>"

definition tick :: "miner \<Rightarrow> miner" where
  "tick m = m\<lparr>clock := Suc (clock m)\<rparr>"

text \<open>Sequencing: an exception or the end of the fuel skips the rest.\<close>

definition and_then ::
  "'a outcome \<times> miner \<Rightarrow> ('a \<Rightarrow> miner \<Rightarrow> 'b outcome \<times> miner) \<Rightarrow> 'b outcome \<times> miner" where
  "and_then r f =
     (case r of
        (Returned a, m) \<Rightarrow> f a m
      | (Raised e, m) \<Rightarrow> (Raised e, m)
      | (OutOfFuel, m) \<Rightarrow> (OutOfFuel, m))"

text \<open>
  \<open>CUDA_SAFE_CALL(call)\<close>: the call is made; a status other than \<open>cudaSuccess\<close> is thrown
  as a \<open>cuda_runtime_error\<close>.
\<close>

definition cuda_safe_call :: "env \<Rightarrow> event \<Rightarrow> miner \<Rightarrow> unit outcome \<times> miner" where
  "cuda_safe_call E call m =
     (case cuda_status E (clock m) of
        None \<Rightarrow> (Returned (), tick (emit call m))
      | Some what \<Rightarrow> (Raised (cuda_runtime_error what), tick (emit call m)))"

definition obs_shouldStop :: "env \<Rightarrow> miner \<Rightarrow> bool \<times> miner" where
  "obs_shouldStop E m = (shouldStop E (clock m), tick (emit (ObsShouldStop (shouldStop E (clock m))) m))"

definition obs_paused :: "env \<Rightarrow> miner \<Rightarrow> bool \<times> miner" where
  "obs_paused E m = (paused E (clock m), tick (emit (ObsPaused (paused E (clock m))) m))"

text \<open>
  \<open>m_new_work.compare_exchange_strong(t, false)\<close> with \<open>t = true\<close>: the flag as the other
  threads left it is read and cleared in one step; the result is whether it was set.
\<close>

definition compare_exchange_new_work :: "env \<Rightarrow> miner \<Rightarrow> bool \<times> miner" where
  "compare_exchange_new_work E m =
     (let flag = (m_new_work m \<or> kicked E (clock m))
      in (flag, tick (emit (ObsNewWork flag) (m\<lparr>m_new_work := False\<rparr>))))"

text \<open>\<open>m_new_work.store(false, std::memory_order_relaxed)\<close>.\<close>

definition store_new_work_false :: "miner \<Rightarrow> miner" where
  "store_new_work_false m = m\<lparr>m_new_work := False\<rparr>"

subsection \<open>The constructor\<close>

text \<open>
  \<open>m_batch_size(s_gridSize * s_blockSize)\<close> and
  \<open>m_streams_batch_size(s_gridSize * s_blockSize * s_numStreams)\<close>: products of
  \<open>unsigned\<close> values, so they wrap at 32 bits.
\<close>

definition CUDAMiner :: "statics \<Rightarrow> nat \<Rightarrow> miner" where
  "CUDAMiner cfg index =
     \<lparr>m_index = index, m_device_num = 0, m_light = (\<lambda>_. 0), m_dag = 0, m_dag_size = - 1,
      m_current_target = 0,
      m_batch_size = s_gridSize cfg * s_blockSize cfg,
      m_streams_batch_size = s_gridSize cfg * s_blockSize cfg * s_numStreams cfg,
      m_new_work = False,
      m_search_buf = (\<lambda>_. \<lparr>count = 0, result = []\<rparr>),
      clock = 0, trace = []\<rparr>"

subsection \<open>search\<close>

text \<open>The kernel launch \<open>run_ethash_search(s_gridSize, s_blockSize, stream, &buffer, start_nonce, s_parallelHash)\<close> on slot \<open>i\<close>.\<close>

definition run_ethash_search :: "statics \<Rightarrow> nat \<Rightarrow> 64 word \<Rightarrow> miner \<Rightarrow> miner" where
  "run_ethash_search cfg i start_nonce m =
     emit (RunEthashSearch (s_gridSize cfg) (s_blockSize cfg) i start_nonce (s_parallelHash cfg)) m"

text \<open>
  The priming loop, lines 353 to 363, over the slot indices: the slot's count is cleared,
  the batch is launched, and \<open>start_nonce += m_batch_size\<close>.
\<close>

fun prime_streams :: "statics \<Rightarrow> nat list \<Rightarrow> 64 word \<Rightarrow> miner \<Rightarrow> 64 word \<times> miner" where
  "prime_streams cfg [] start_nonce m = (start_nonce, m)"
| "prime_streams cfg (current_index # rest) start_nonce m =
     (let m1 = m\<lparr>m_search_buf := (m_search_buf m)
                  (current_index := (m_search_buf m current_index)\<lparr>count := 0\<rparr>)\<rparr>;
          m2 = run_ethash_search cfg current_index start_nonce m1
      in prime_streams cfg rest (start_nonce + ucast (m_batch_size m2)) m2)"

text \<open>
  \<open>buffer.result[i]\<close> on the fixed-size array: an index past the end has no defined
  behaviour in the source and is the outcome \<open>out_of_bounds\<close> here.
\<close>

definition read_result :: "Search_results \<Rightarrow> nat \<Rightarrow> Search_result option" where
  "read_result buffer i = (if i < length (result buffer) then Some (result buffer ! i) else None)"

text \<open>
  The loop of lines 411 to 423 over \<open>i = 0, ..., found_count - 1\<close>. Every solution is
  stamped with its own reading of \<open>std::chrono::steady_clock::now()\<close>, an observation
  like the others.
\<close>

fun extract_solutions ::
  "env \<Rightarrow> WorkPackage \<Rightarrow> 64 word \<Rightarrow> Search_results \<Rightarrow> nat list \<Rightarrow> miner \<Rightarrow> unit outcome \<times> miner" where
  "extract_solutions E w nonce_base buffer [] m = (Returned (), m)"
| "extract_solutions E w nonce_base buffer (i # rest) m =
     (case read_result buffer i of
        None \<Rightarrow> (Raised out_of_bounds, m)
      | Some r \<Rightarrow>
          extract_solutions E w nonce_base buffer rest
            (tick (emit (SubmitProof \<lparr>nonce = nonce_base + ucast (gid r), mixHash = mix r,
                                       work = w, tstamp = steady_clock_now E (clock m),
                                       midx = m_index m\<rparr>) m)))"

text \<open>
  \<open>cudaStreamSynchronize(stream)\<close> under \<open>CUDA_SAFE_CALL\<close>. When it returns, the slot's
  kernel has finished and the pinned buffer holds what the kernel wrote.
\<close>

definition cudaStreamSynchronize :: "env \<Rightarrow> nat \<Rightarrow> miner \<Rightarrow> unit outcome \<times> miner" where
  "cudaStreamSynchronize E i m =
     and_then (cuda_safe_call E (CudaStreamSynchronize i) m)
       (\<lambda>_ m1. (Returned (),
          emit (ObsKernelResults i (kernel_results E (clock m)))
            (m1\<lparr>m_search_buf := (m_search_buf m1)(i := kernel_results E (clock m))\<rparr>)))"

text \<open>
  One pass of the inner loop, lines 388 to 430, for slot \<open>current_index\<close>, with the locals
  \<open>done\<close> and \<open>start_nonce\<close>; it returns the new \<open>done\<close>.
\<close>

definition process_stream ::
  "env \<Rightarrow> statics \<Rightarrow> WorkPackage \<Rightarrow> nat \<Rightarrow> bool \<Rightarrow> 64 word \<Rightarrow> miner \<Rightarrow> bool outcome \<times> miner" where
  "process_stream E cfg w current_index done start_nonce m =
     and_then (cudaStreamSynchronize E current_index m)
       (\<lambda>_ m1.
          let (stop, m2) = obs_shouldStop E m1;
              m3 = (if stop then store_new_work_false m2 else m2);
              done1 = (stop \<or> done);
              buffer = m_search_buf m3 current_index;
              found_count = min (count buffer) (MAX_SEARCH_RESULTS cfg)
          in and_then
               (if found_count \<noteq> 0
                then extract_solutions E w
                       (start_nonce - ucast (m_streams_batch_size m3)) buffer
                       [0..<unat found_count]
                       (m3\<lparr>m_search_buf := (m_search_buf m3)
                             (current_index := buffer\<lparr>count := 0\<rparr>)\<rparr>)
                else (Returned (), m3))
               (\<lambda>_ m4. (Returned done1,
                          if \<not> done1 then run_ethash_search cfg current_index start_nonce m4
                          else m4)))"

text \<open>The inner loop, lines 381 to 432: every slot in turn, \<open>start_nonce += m_batch_size\<close> after each.\<close>

fun search_streams ::
  "env \<Rightarrow> statics \<Rightarrow> WorkPackage \<Rightarrow> nat list \<Rightarrow> bool \<Rightarrow> 64 word \<Rightarrow> miner
     \<Rightarrow> (bool \<times> 64 word) outcome \<times> miner" where
  "search_streams E cfg w [] done start_nonce m = (Returned (done, start_nonce), m)"
| "search_streams E cfg w (current_index # rest) done start_nonce m =
     and_then (process_stream E cfg w current_index done start_nonce m)
       (\<lambda>done1 m1. search_streams E cfg w rest done1 (start_nonce + ucast (m_batch_size m1)) m1)"

text \<open>
  The outer loop \<open>while (!done)\<close>, lines 369 to 444, entered with \<open>done = false\<close>. Each
  round costs one unit of fuel; the loop has no bound of its own.
\<close>

fun search_loop ::
  "nat \<Rightarrow> env \<Rightarrow> statics \<Rightarrow> WorkPackage \<Rightarrow> 64 word \<Rightarrow> miner \<Rightarrow> unit outcome \<times> miner" where
  "search_loop 0 E cfg w start_nonce m = (OutOfFuel, m)"
| "search_loop (Suc fuel) E cfg w start_nonce m =
     (let (new_work, m1) = compare_exchange_new_work E m;
          (done, m2) = (if \<not> new_work then obs_paused E m1 else (True, m1))
      in and_then
           (search_streams E cfg w [0..<unat (s_numStreams cfg)] done start_nonce m2)
           (\<lambda>(done1, start_nonce1) m3.
              let m4 = emit (UpdateHashRate (m_batch_size m3) (s_numStreams cfg)) m3;
                  (stop, m5) = obs_shouldStop E m4
              in if stop then (Returned (), store_new_work_false m5)
                 else if done1 then (Returned (), m5)
                 else search_loop fuel E cfg w start_nonce1 m5))"

text \<open>
  \<open>search\<close>, lines 340 to 455: the header is written to the device, and the target when
  it differs from the one set last; the streams are primed; the loop runs. The log of the
  switch time, compiled in development builds only, is left out.
\<close>

definition search ::
  "nat \<Rightarrow> env \<Rightarrow> statics \<Rightarrow> 256 word \<Rightarrow> 64 word \<Rightarrow> 64 word \<Rightarrow> WorkPackage \<Rightarrow> miner
     \<Rightarrow> unit outcome \<times> miner" where
  "search fuel E cfg hdr target start_nonce w m =
     (let m1 = emit (SetHeader hdr) m;
          m2 = (if m_current_target m1 \<noteq> target
                then (emit (SetTarget target) m1)\<lparr>m_current_target := target\<rparr>
                else m1);
          (start_nonce1, m3) = prime_streams cfg [0..<unat (s_numStreams cfg)] start_nonce m2
      in search_loop fuel E cfg w start_nonce1 m3)"

subsection \<open>init\<close>

text \<open>
  The barrier of lines 66 to 72: \<open>while (s_dagLoadIndex < m_index)\<close> with a timed wait
  of three seconds in its body. The loop tests nothing else; each test costs one unit of
  fuel.
\<close>

fun wait_dag_load :: "nat \<Rightarrow> env \<Rightarrow> miner \<Rightarrow> unit outcome \<times> miner" where
  "wait_dag_load 0 E m = (OutOfFuel, m)"
| "wait_dag_load (Suc fuel) E m =
     (let idx = dagLoadIndex E (clock m);
          m1 = tick (emit (ObsDagLoadIndex idx) m)
      in if idx < m_index m then wait_dag_load fuel E (emit TimedWait m1)
         else (Returned (), m1))"

text \<open>\<open>unsigned device = s_devices[m_index] > -1 ? s_devices[m_index] : m_index\<close>.\<close>

definition configured_device :: "statics \<Rightarrow> miner \<Rightarrow> 32 word" where
  "configured_device cfg m =
     (if s_devices cfg (m_index m) > - 1 then word_of_int (s_devices cfg (m_index m))
      else of_nat (m_index m))"

text \<open>Line 89: \<open>device < numDevices - 1 ? device : numDevices - 1\<close>, on \<open>unsigned\<close> values.\<close>

definition select_device :: "32 word \<Rightarrow> 32 word \<Rightarrow> 32 word" where
  "select_device device numDevices =
     (if device < numDevices - 1 then device else numDevices - 1)"

text \<open>\<open>getNumDevices\<close>, lines 260 to 277; its errors are plain \<open>std::runtime_error\<close>s.\<close>

definition getNumDevices :: "env \<Rightarrow> miner \<Rightarrow> 32 word outcome \<times> miner" where
  "getNumDevices E m =
     (let (err, deviceCount) = cudaGetDeviceCount E (clock m);
          m1 = tick (emit (ObsDeviceCount err deviceCount) m)
      in case err of
           cudaSuccess \<Rightarrow> (Returned (word_of_int deviceCount), m1)
         | cudaErrorInsufficientDriver \<Rightarrow>
             (let driverVersion = cudaDriverGetVersion E (clock m)
              in if driverVersion = 0
                 then (Raised (std_runtime_error ''No CUDA driver found''), m1)
                 else (Raised (std_runtime_error
                         (''Insufficient CUDA driver: '' @ to_string E driverVersion)), m1))
         | cudaErrorOther msg \<Rightarrow> (Raised (std_runtime_error msg), m1))"

text \<open>\<open>cudaMalloc\<close> under \<open>CUDA_SAFE_CALL\<close>, returning the pointer it stores.\<close>

definition cudaMalloc :: "env \<Rightarrow> buffer_kind \<Rightarrow> 64 word \<Rightarrow> miner \<Rightarrow> nat outcome \<times> miner" where
  "cudaMalloc E kind bytes m =
     and_then (cuda_safe_call E (CudaMalloc kind bytes) m)
       (\<lambda>_ m1. (Returned (malloc_result E (clock m)), m1))"

text \<open>
  Lines 153 to 157: a pinned buffer and a stream for every slot. The new buffers hold
  nothing the model reads before \<open>search\<close> clears their counts.
\<close>

fun create_mining_buffers :: "env \<Rightarrow> nat list \<Rightarrow> miner \<Rightarrow> unit outcome \<times> miner" where
  "create_mining_buffers E [] m = (Returned (), m)"
| "create_mining_buffers E (i # rest) m =
     and_then (cuda_safe_call E (CudaMallocHost i) m) (\<lambda>_ m1.
     and_then (cuda_safe_call E (CudaStreamCreateWithFlags i) m1) (\<lambda>_ m2.
       create_mining_buffers E rest m2))"

text \<open>
  Lines 109 to 129, for the device \<open>dev\<close> with properties \<open>device_props\<close>: when the
  dataset must be rebuilt, the memory check and the device reset. \<open>Returned False\<close> is
  the \<open>return false\<close> of line 118.
\<close>

definition reset_for_dag ::
  "env \<Rightarrow> statics \<Rightarrow> 32 word \<Rightarrow> cudaDeviceProp \<Rightarrow> int \<Rightarrow> 64 word \<Rightarrow> miner
     \<Rightarrow> bool outcome \<times> miner" where
  "reset_for_dag E cfg dev device_props dagNumItems dagSize m =
     (if word_of_int dagNumItems \<noteq> m_dag_size m \<or> m_dag m = 0 then
        if totalGlobalMem device_props < dagSize then
          (Returned False,
           emit (Log (LogInsufficientMemory (name device_props)
                        (totalGlobalMem device_props) dagSize)) m)
        else
          and_then (cuda_safe_call E CudaDeviceReset (emit (Log LogResettingDevice) m)) (\<lambda>_ m1.
          and_then (cuda_safe_call E (CudaSetDeviceFlags (s_scheduleFlag cfg)) m1) (\<lambda>_ m2.
          and_then (cuda_safe_call E CudaDeviceSetCacheConfig m2) (\<lambda>_ m3.
            (Returned True, m3\<lparr>m_light := (m_light m3)(dev := 0), m_dag := 0\<rparr>))))
      else (Returned True, m))"

text \<open>
  Lines 130 to 183: the light cache is allocated if the device has none and always
  copied; the dataset buffer is allocated, and the streams created and the dataset
  generated, under the conditions of lines 144 and 149; the members and the shared load
  index are updated. The duration that the last log line prints (two readings of the
  steady clock around the generation) is left out.
\<close>

definition load_dag ::
  "env \<Rightarrow> statics \<Rightarrow> 32 word \<Rightarrow> cudaDeviceProp \<Rightarrow> epoch_context \<Rightarrow> miner
     \<Rightarrow> bool outcome \<times> miner" where
  "load_dag E cfg dev device_props context m =
     (let lightNumItems = light_cache_num_items context;
          lightSize = get_light_cache_size E lightNumItems;
          dagNumItems = full_dataset_num_items context;
          dagSize = get_full_dataset_size E dagNumItems;
          dag = m_dag m;
          light = m_light m dev
      in and_then
           (if light = 0
            then cudaMalloc E LightBuffer lightSize (emit (Log (LogAllocatingLight lightSize)) m)
            else (Returned light, m))
           (\<lambda>light1 m1.
              and_then (cuda_safe_call E (CudaMemcpy light1 (light_cache context) lightSize) m1)
                (\<lambda>_ m2.
                   let m3 = m2\<lparr>m_light := (m_light m2)(dev := light1)\<rparr>
                   in and_then
                        (if word_of_int dagNumItems \<noteq> m_dag_size m3 \<or> dag = 0
                         then cudaMalloc E DagBuffer dagSize m3
                         else (Returned dag, m3))
                        (\<lambda>dag1 m4.
                           let m5 = emit (SetConstants dag1 dagNumItems light1 lightNumItems) m4
                           in and_then
                                (if word_of_int dagNumItems \<noteq> m_dag_size m5 \<or> dag1 = 0
                                 then and_then
                                        (create_mining_buffers E [0..<unat (s_numStreams cfg)]
                                           (emit (Log LogGeneratingBuffers) m5))
                                        (\<lambda>_ m6.
                                           (Returned (),
                                            emit (Log (LogGeneratedDag dev))
                                              (emit (EthashGenerateDag dagSize (s_gridSize cfg)
                                                       (s_blockSize cfg) 0)
                                                 (emit (Log (LogGeneratingDag dev dagSize
                                                          (totalGlobalMem device_props - dagSize - lightSize)))
                                                    (m6\<lparr>m_current_target := 0\<rparr>)))))
                                 else (Returned (), m5))
                                (\<lambda>_ m7.
                                   let m8 = m7\<lparr>m_dag := dag1, m_dag_size := word_of_int dagNumItems\<rparr>;
                                       m9 = emit DagLoadIndexIncrement m8;
                                       m10 = (if s_dagLoadMode cfg = DAG_LOAD_MODE_SEQUENTIAL cfg
                                              then emit NotifyAll m9 else m9)
                                   in (Returned True, m10))))))"

text \<open>
  Lines 80 to 183, after the barrier. The bookkeeping for the hardware monitor is left
  out.
\<close>

definition init_device :: "env \<Rightarrow> statics \<Rightarrow> int \<Rightarrow> miner \<Rightarrow> bool outcome \<times> miner" where
  "init_device E cfg ep m =
     (let device = configured_device cfg m;
          m0 = emit (Log (LogInitialising (m_index m))) m
      in and_then (getNumDevices E m0) (\<lambda>numDevices m1.
           if numDevices = 0 then (Returned False, m1)
           else
             let dev = select_device device numDevices;
                 m2 = m1\<lparr>m_device_num := dev\<rparr>;
                 device_props = deviceProps E dev
             in and_then (cuda_safe_call E (CudaGetDeviceProperties dev) m2) (\<lambda>_ m3.
                  let m4 = emit (Log (LogUsingDevice (name device_props) (major device_props)
                                       (minor device_props))) m3;
                      context = get_global_epoch_context E ep;
                      dagNumItems = full_dataset_num_items context;
                      dagSize = get_full_dataset_size E dagNumItems
                  in and_then (cuda_safe_call E (CudaSetDevice dev) m4) (\<lambda>_ m5.
                       and_then
                         (reset_for_dag E cfg dev device_props dagNumItems dagSize
                            (emit (Log LogSetDevice) m5))
                         (\<lambda>proceed m6.
                            if \<not> proceed then (Returned False, m6)
                            else load_dag E cfg dev device_props context m6)))))"

text \<open>
  \<open>init\<close>: in sequential load mode the barrier, then the test of \<open>shouldStop()\<close>; then
  the rest.
\<close>

definition init :: "nat \<Rightarrow> env \<Rightarrow> statics \<Rightarrow> int \<Rightarrow> miner \<Rightarrow> bool outcome \<times> miner" where
  "init fuel E cfg ep m =
     (if s_dagLoadMode cfg = DAG_LOAD_MODE_SEQUENTIAL cfg then
        and_then (wait_dag_load fuel E m) (\<lambda>_ m1.
          let (stop, m2) = obs_shouldStop E m1
          in if stop then (Returned False, emit (Log LogExiting) m2)
             else init_device E cfg ep m2)
      else init_device E cfg ep m)"

subsection \<open>workLoop\<close>

text \<open>
  \<open>(uint64_t)(u64)((u256)current.boundary >> 192)\<close>: the boundary as a 256-bit number,
  shifted right by 192 bits and narrowed to 64 bits.
\<close>

definition upper64OfBoundary :: "WorkPackage \<Rightarrow> 64 word" where
  "upper64OfBoundary w = ucast (drop_bit 192 (boundary w))"

text \<open>
  The loop \<open>while (!shouldStop())\<close> of lines 196 to 230, with the local \<open>current\<close>. Each
  iteration costs one unit of fuel, and \<open>init\<close> and \<open>search\<close> get what is left.
\<close>

fun workLoop_loop ::
  "nat \<Rightarrow> env \<Rightarrow> statics \<Rightarrow> WorkPackage \<Rightarrow> miner \<Rightarrow> unit outcome \<times> miner" where
  "workLoop_loop 0 E cfg current m = (OutOfFuel, m)"
| "workLoop_loop (Suc fuel) E cfg current m =
     (let (stop, m1) = obs_shouldStop E m
      in if stop then (Returned (), m1)
         else
           let job = getWork E (clock m1);
               m2 = tick (emit (ObsWork job) m1)
           in case job of
                None \<Rightarrow> workLoop_loop fuel E cfg current (emit TimedWait m2)
              | Some w \<Rightarrow>
                  if epoch current \<noteq> epoch w then
                    and_then (init fuel E cfg (epoch w) m2) (\<lambda>ok m3.
                      if \<not> ok then (Returned (), m3)
                      else workLoop_loop fuel E cfg w m3)
                  else
                    and_then
                      (search fuel E cfg (header w) (upper64OfBoundary w) (startNonce w) w m2)
                      (\<lambda>_ m3. workLoop_loop fuel E cfg w m3))"

text \<open>
  The handler of lines 235 to 240: it catches \<open>cuda_runtime_error\<close> only, and throws a
  \<open>std::runtime_error\<close> with the prefixed text.
\<close>

definition workLoop_catch :: "exn \<Rightarrow> miner \<Rightarrow> unit outcome \<times> miner" where
  "workLoop_catch e m =
     (case e of
        cuda_runtime_error what \<Rightarrow> (Raised (std_runtime_error (''GPU error: '' @ what)), m)
      | _ \<Rightarrow> (Raised e, m))"

text \<open>
  \<open>workLoop\<close>, from the \<open>current\<close> it starts with: the loop, then the device reset of
  line 233, both inside the \<open>try\<close>.
\<close>

definition workLoop ::
  "nat \<Rightarrow> env \<Rightarrow> statics \<Rightarrow> WorkPackage \<Rightarrow> miner \<Rightarrow> unit outcome \<times> miner" where
  "workLoop fuel E cfg current m =
     (case workLoop_loop fuel E cfg current m of
        (Returned _, m1) \<Rightarrow>
          (case cuda_safe_call E CudaDeviceReset m1 of
             (Raised e, m2) \<Rightarrow> workLoop_catch e m2
           | (r, m2) \<Rightarrow> (r, m2))
      | (Raised e, m1) \<Rightarrow> workLoop_catch e m1
      | (OutOfFuel, m1) \<Rightarrow> (OutOfFuel, m1))"

section \<open>Properties\<close>

subsection \<open>Vocabulary\<close>

text \<open>The events a run adds to the trace.\<close>

definition new_events :: "miner \<Rightarrow> miner \<Rightarrow> event list" where
  "new_events m m' = drop (length (trace m)) (trace m')"

text \<open>The batches issued, in order: slot and first nonce of every kernel launch.\<close>

fun issue_of :: "event \<Rightarrow> (nat \<times> 64 word) list" where
  "issue_of (RunEthashSearch g b i n p) = [(i, n)]"
| "issue_of _ = []"

definition issued :: "event list \<Rightarrow> (nat \<times> 64 word) list" where
  "issued t = concat (map issue_of t)"

text \<open>
  The range of a batch as an interval of natural numbers, \<open>m_batch_size\<close> nonces from
  its first one.
\<close>

definition batch_range :: "32 word \<Rightarrow> nat \<times> 64 word \<Rightarrow> nat set" where
  "batch_range B b = {unat (snd b) ..< unat (snd b) + unat B}"

text \<open>
  Round-robin order: the \<open>k\<close>-th batch goes to slot \<open>k mod N\<close> and starts at
  \<open>s + k * B\<close>, computed in 64 bits.
\<close>

definition round_robin :: "nat \<Rightarrow> 64 word \<Rightarrow> 32 word \<Rightarrow> (nat \<times> 64 word) list \<Rightarrow> bool" where
  "round_robin N s B bs \<longleftrightarrow>
     (\<forall>k<length bs. bs ! k = (k mod N, s + of_nat k * ucast B))"

text \<open>
  The ranges advance, no two overlap, and together they are the interval from \<open>s\<close> of
  as many batches.
\<close>

definition nonce_partition :: "64 word \<Rightarrow> 32 word \<Rightarrow> (nat \<times> 64 word) list \<Rightarrow> bool" where
  "nonce_partition s B bs \<longleftrightarrow>
     (\<forall>k<length bs. \<forall>j<k.
        unat (snd (bs ! j)) + unat B \<le> unat (snd (bs ! k)) \<and>
        batch_range B (bs ! j) \<inter> batch_range B (bs ! k) = {}) \<and>
     (\<Union>k<length bs. batch_range B (bs ! k)) = {unat s ..< unat s + length bs * unat B}"

text \<open>
  The solution built from one entry of a result buffer at the time \<open>t\<close>, and the
  solutions built from a list of entries, one observation after the other from \<open>t\<close> on.
\<close>

definition Solution_of ::
  "env \<Rightarrow> WorkPackage \<Rightarrow> 64 word \<Rightarrow> nat \<Rightarrow> nat \<Rightarrow> Search_result \<Rightarrow> Solution" where
  "Solution_of E w nonce_base t idx r =
     \<lparr>nonce = nonce_base + ucast (gid r), mixHash = mix r, work = w,
      tstamp = steady_clock_now E t, midx = idx\<rparr>"

fun Solutions_of ::
  "env \<Rightarrow> WorkPackage \<Rightarrow> 64 word \<Rightarrow> nat \<Rightarrow> nat \<Rightarrow> Search_result list \<Rightarrow> Solution list" where
  "Solutions_of E w nonce_base t idx [] = []"
| "Solutions_of E w nonce_base t idx (r # rs) =
     Solution_of E w nonce_base t idx r # Solutions_of E w nonce_base (Suc t) idx rs"

text \<open>
  A run from \<open>m\<close> to \<open>m'\<close> that adds the events \<open>t\<close> and leaves the members fixed at
  construction alone.
\<close>

definition steps_to :: "miner \<Rightarrow> miner \<Rightarrow> event list \<Rightarrow> bool" where
  "steps_to m m' t \<longleftrightarrow>
     trace m' = trace m @ t \<and> m_batch_size m' = m_batch_size m \<and>
     m_streams_batch_size m' = m_streams_batch_size m \<and> m_index m' = m_index m"

text \<open>The candidate solutions handed to the farm, in order.\<close>

fun submit_of :: "event \<Rightarrow> Solution list" where
  "submit_of (SubmitProof s) = [s]"
| "submit_of _ = []"

definition submitted :: "event list \<Rightarrow> Solution list" where
  "submitted t = concat (map submit_of t)"

text \<open>
  A check that runs along a trace. It keeps the first nonce of the batch last issued to
  every slot and the solutions still owed for the buffer read last. A buffer read for a
  slot (which must have a batch) owes one solution for each of its first
  \<open>min count M\<close> entries, with the nonce of that batch's base plus the entry's \<open>gid\<close>
  and with the entry's mix; every solution handed over must be the next one owed; nothing
  may be owed when a batch is issued, when the next buffer is read, or at the end.
\<close>

type_synonym drain_check = "(nat \<Rightarrow> 64 word option) \<times> (64 word \<times> 256 word) list \<times> bool"

fun drain_step :: "32 word \<Rightarrow> drain_check \<Rightarrow> event \<Rightarrow> drain_check" where
  "drain_step M (bases, pending, ok) (RunEthashSearch g b i n p) =
     (bases(i \<mapsto> n), [], ok \<and> pending = [])"
| "drain_step M (bases, pending, ok) (ObsKernelResults i buf) =
     (bases,
      (case bases i of
         None \<Rightarrow> []
       | Some base \<Rightarrow>
           map (\<lambda>r. (base + ucast (gid r), mix r)) (take (unat (min (count buf) M)) (result buf))),
      ok \<and> pending = [] \<and> bases i \<noteq> None)"
| "drain_step M (bases, pending, ok) (SubmitProof s) =
     (bases, tl pending, ok \<and> pending \<noteq> [] \<and> hd pending = (nonce s, mixHash s))"
| "drain_step M (bases, pending, ok) e = (bases, pending, ok)"

definition drains_from_last_batch :: "32 word \<Rightarrow> event list \<Rightarrow> bool" where
  "drains_from_last_batch M t =
     (case foldl (drain_step M) (Map.empty, [], True) t of
        (bases, pending, ok) \<Rightarrow> ok \<and> pending = [])"

text \<open>An iteration consumes the new-work flag when its compare-exchange finds it set.\<close>

fun consumes :: "event \<Rightarrow> bool" where
  "consumes (ObsNewWork b) = b"
| "consumes _ = False"

text \<open>
  A check that runs along a trace and remembers whether the round has been marked done:
  by the flag found set, by \<open>paused()\<close> or by \<open>shouldStop()\<close>. From then on no batch may be
  issued and no iteration may start (no further compare-exchange).
\<close>

fun flag_step :: "bool \<times> bool \<Rightarrow> event \<Rightarrow> bool \<times> bool" where
  "flag_step (marked, ok) (RunEthashSearch g b i n p) = (marked, ok \<and> \<not> marked)"
| "flag_step (marked, ok) (ObsNewWork b) = (marked \<or> b, ok \<and> \<not> marked)"
| "flag_step (marked, ok) (ObsPaused b) = (marked \<or> b, ok)"
| "flag_step (marked, ok) (ObsShouldStop b) = (marked \<or> b, ok)"
| "flag_step (marked, ok) e = (marked, ok)"

definition flag_single_use :: "event list \<Rightarrow> bool" where
  "flag_single_use t = snd (foldl flag_step (False, True) t)"

text \<open>
  Events of \<open>init\<close>: those of the barrier (its polls and waits, and the test of
  \<open>shouldStop()\<close>), those that allocate (device memory, pinned host buffers, streams),
  and those made only when the dataset is rebuilt.
\<close>

fun barrier_event :: "event \<Rightarrow> bool" where
  "barrier_event (ObsDagLoadIndex i) = True"
| "barrier_event TimedWait = True"
| "barrier_event (ObsShouldStop b) = True"
| "barrier_event _ = False"

fun allocates :: "event \<Rightarrow> bool" where
  "allocates (CudaMalloc k n) = True"
| "allocates (CudaMallocHost i) = True"
| "allocates (CudaStreamCreateWithFlags i) = True"
| "allocates _ = False"

fun rebuilds :: "event \<Rightarrow> bool" where
  "rebuilds CudaDeviceReset = True"
| "rebuilds (CudaSetDeviceFlags f) = True"
| "rebuilds CudaDeviceSetCacheConfig = True"
| "rebuilds (CudaMalloc DagBuffer n) = True"
| "rebuilds (CudaMallocHost i) = True"
| "rebuilds (CudaStreamCreateWithFlags i) = True"
| "rebuilds (EthashGenerateDag n g b s) = True"
| "rebuilds _ = False"

text \<open>
  The barrier lets the worker through within the fuel: the load mode is not sequential, or
  one of the first polls finds the shared index at the worker's index or above.
\<close>

definition barrier_passes :: "nat \<Rightarrow> env \<Rightarrow> statics \<Rightarrow> miner \<Rightarrow> bool" where
  "barrier_passes fuel E cfg m \<longleftrightarrow>
     s_dagLoadMode cfg \<noteq> DAG_LOAD_MODE_SEQUENTIAL cfg \<or>
     (\<exists>k<fuel. m_index m \<le> dagLoadIndex E (clock m + k))"

text \<open>The device \<open>init\<close> selects when \<open>numDevices\<close> devices are present.\<close>

definition selected_device :: "statics \<Rightarrow> miner \<Rightarrow> 32 word \<Rightarrow> 32 word" where
  "selected_device cfg m numDevices = select_device (configured_device cfg m) numDevices"

text \<open>Two states with the same index, device and device pointers.\<close>

definition same_members :: "miner \<Rightarrow> miner \<Rightarrow> bool" where
  "same_members m m1 \<longleftrightarrow>
     m_index m1 = m_index m \<and> m_device_num m1 = m_device_num m \<and> m_light m1 = m_light m \<and>
     m_dag m1 = m_dag m \<and> m_dag_size m1 = m_dag_size m"

definition grows :: "miner \<Rightarrow> miner \<Rightarrow> bool" where
  "grows m m' \<longleftrightarrow>
     (\<exists>v. trace m' = trace m @ v) \<and> m_device_num m' = m_device_num m \<and> m_index m' = m_index m"

text \<open>
  A check that runs along a trace of \<open>workLoop\<close>. It keeps the job that \<open>work()\<close>
  returned last; every target written to the device must be the upper 64 bits of the
  boundary of that job.
\<close>

fun job_or_target :: "event \<Rightarrow> bool" where
  "job_or_target (ObsWork j) = True"
| "job_or_target (SetTarget x) = True"
| "job_or_target _ = False"

fun target_step :: "WorkPackage option \<times> bool \<Rightarrow> event \<Rightarrow> WorkPackage option \<times> bool" where
  "target_step (job, ok) (ObsWork j) = (j, ok)"
| "target_step (job, ok) (SetTarget x) =
     (job, ok \<and> (case job of None \<Rightarrow> False | Some w \<Rightarrow> x = upper64OfBoundary w))"
| "target_step (job, ok) e = (job, ok)"

definition targets_from_jobs :: "event list \<Rightarrow> bool" where
  "targets_from_jobs t = snd (foldl target_step (None, True) t)"

text \<open>
  What a pass of the loop of \<open>workLoop\<close> begins with when \<open>work()\<close> returns the job
  \<open>w\<close> of the epoch held and \<open>m_current_target\<close> is \<open>held\<close>: the test of
  \<open>shouldStop()\<close>, the job, the header of the job, and the job's target unless it is
  \<open>held\<close>, the target set last.
\<close>

definition search_start :: "WorkPackage \<Rightarrow> 64 word \<Rightarrow> event list" where
  "search_start w held =
     [ObsShouldStop False, ObsWork (Some w), SetHeader (header w)] @
     (if held = upper64OfBoundary w then [] else [SetTarget (upper64OfBoundary w)])"

text \<open>A trace grows by events that name no job and no target.\<close>

definition quiet :: "event list \<Rightarrow> event list \<Rightarrow> bool" where
  "quiet t t' \<longleftrightarrow> (\<exists>v. t' = t @ v \<and> list_all (\<lambda>e. \<not> job_or_target e) v)"

subsection \<open>Concrete environments\<close>

text \<open>
  A quiet environment: no shutdown, no pause, no new work, every runtime call succeeds,
  one device, and kernels that find nothing.
\<close>

definition E_quiet :: env where
  "E_quiet =
     \<lparr>shouldStop = (\<lambda>t. False), paused = (\<lambda>t. False), kicked = (\<lambda>t. False),
      dagLoadIndex = (\<lambda>t. 0), cuda_status = (\<lambda>t. None), malloc_result = (\<lambda>t. Suc t),
      kernel_results = (\<lambda>t. \<lparr>count = 0, result = replicate 4 \<lparr>gid = 0, mix = 0\<rparr>\<rparr>),
      getWork = (\<lambda>t. None), cudaGetDeviceCount = (\<lambda>t. (cudaSuccess, 1)),
      cudaDriverGetVersion = (\<lambda>t. 0), steady_clock_now = (\<lambda>t. t),
      deviceProps = (\<lambda>d. \<lparr>name = ''gpu'', major = 6, minor = 1, totalGlobalMem = 8000000000\<rparr>),
      get_global_epoch_context =
        (\<lambda>e. \<lparr>light_cache_num_items = 10, light_cache = 7, full_dataset_num_items = 100\<rparr>),
      get_light_cache_size = (\<lambda>n. word_of_int (n * 64)),
      get_full_dataset_size = (\<lambda>n. word_of_int (n * 128)),
      to_string = (\<lambda>n. [])\<rparr>"

text \<open>The same, with mining paused from the sixth observation on.\<close>

definition E_pause_later :: env where
  "E_pause_later = E_quiet\<lparr>paused := (\<lambda>t. 6 \<le> t)\<rparr>"

text \<open>Grid 2, block 1 (batches of two nonces), at most 4 results; one stream, or two.\<close>

definition cfg_one_stream :: statics where
  "cfg_one_stream =
     \<lparr>s_dagLoadMode = 0, s_blockSize = 1, s_gridSize = 2, s_numStreams = 1,
      s_scheduleFlag = 0, s_parallelHash = 4, s_devices = (\<lambda>_. - 1),
      MAX_SEARCH_RESULTS = 4, DAG_LOAD_MODE_SEQUENTIAL = 1\<rparr>"

definition cfg_two_streams :: statics where
  "cfg_two_streams = cfg_one_stream\<lparr>s_numStreams := 2\<rparr>"

definition job0 :: WorkPackage where
  "job0 = \<lparr>header = 1, epoch = 0, boundary = 5, startNonce = 5\<rparr>"

text \<open>Kernels that report two results in every buffer; mining pauses as above.\<close>

definition E_found :: env where
  "E_found = E_quiet\<lparr>kernel_results := (\<lambda>t. \<lparr>count = 2, result =
      [\<lparr>gid = 1, mix = 11\<rparr>, \<lparr>gid = 0, mix = 22\<rparr>, \<lparr>gid = 0, mix = 0\<rparr>, \<lparr>gid = 0, mix = 0\<rparr>]\<rparr>),
      paused := (\<lambda>t. 6 \<le> t)\<rparr>"

text \<open>Kernels that report a count of five in a buffer of four entries.\<close>

definition E_overfull :: env where
  "E_overfull = E_quiet\<lparr>kernel_results := (\<lambda>t. \<lparr>count = 5, result =
      [\<lparr>gid = 1, mix = 11\<rparr>, \<lparr>gid = 2, mix = 22\<rparr>, \<lparr>gid = 3, mix = 33\<rparr>, \<lparr>gid = 4, mix = 44\<rparr>]\<rparr>)\<rparr>"

text \<open>Mining is paused throughout; or new work arrives from the sixth observation on.\<close>

definition E_paused :: env where
  "E_paused = E_quiet\<lparr>paused := (\<lambda>t. True)\<rparr>"

definition E_kick_later :: env where
  "E_kick_later = E_quiet\<lparr>kicked := (\<lambda>t. 6 \<le> t)\<rparr>"

text \<open>
  For \<open>init\<close>: a device with 1000 bytes of memory (the dataset of the quiet environment
  needs 12800); sequential load mode; a configured device index of 5; a shutdown
  requested from the start while the shared load index stays at 0; and a worker that
  holds the dataset of 100 items.
\<close>

definition E_small_device :: env where
  "E_small_device = E_quiet\<lparr>deviceProps :=
     (\<lambda>d. \<lparr>name = ''gpu'', major = 6, minor = 1, totalGlobalMem = 1000\<rparr>)\<rparr>"

definition cfg_sequential :: statics where
  "cfg_sequential = cfg_two_streams\<lparr>s_dagLoadMode := 1\<rparr>"

definition cfg_device5 :: statics where
  "cfg_device5 = cfg_two_streams\<lparr>s_devices := (\<lambda>_. 5)\<rparr>"

definition E_shutdown_at_barrier :: env where
  "E_shutdown_at_barrier = E_quiet\<lparr>shouldStop := (\<lambda>t. True)\<rparr>"

definition m_loaded :: miner where
  "m_loaded = (CUDAMiner cfg_two_streams 0)
     \<lparr>m_light := (\<lambda>d. if d = 0 then 7 else 0), m_dag := 9, m_dag_size := 100\<rparr>"

text \<open>
  For \<open>workLoop\<close>: a job whose boundary has 3 in its upper 64 bits; the \<open>current\<close> the
  loop starts with (epoch \<open>-1\<close>); a farm that always has \<open>job0\<close>, with mining paused and
  a shutdown from the twentieth observation on; and the same farm with every runtime call
  failing from the sixteenth observation on, which is the first wait for a stream.
\<close>

definition job_high :: WorkPackage where
  "job_high = \<lparr>header = 1, epoch = 0, boundary = 3 * 2 ^ 192 + 5, startNonce = 5\<rparr>"

definition no_job :: WorkPackage where
  "no_job = \<lparr>header = 0, epoch = - 1, boundary = 0, startNonce = 0\<rparr>"

definition E_stop_later :: env where
  "E_stop_later = E_quiet\<lparr>getWork := (\<lambda>t. Some job0), paused := (\<lambda>t. True),
     shouldStop := (\<lambda>t. 20 \<le> t)\<rparr>"

definition E_sync_fails :: env where
  "E_sync_fails = E_quiet\<lparr>getWork := (\<lambda>t. Some job0),
     cuda_status := (\<lambda>t. if 16 \<le> t then Some ''boom'' else None)\<rparr>"

text \<open>The farm of \<open>E_stop_later\<close> with the job \<open>job_high\<close> instead.\<close>

definition E_high :: env where
  "E_high = E_stop_later\<lparr>getWork := (\<lambda>t. Some job_high)\<rparr>"

text \<open>
  Grid \<open>2 ^ 24\<close> and block 128 with two streams: batches of \<open>2 ^ 31\<close> nonces, and
  \<open>2 ^ 32\<close> nonces for the two streams together, which is 0 in 32 bits.
\<close>

definition cfg_wide :: statics where
  "cfg_wide = cfg_two_streams\<lparr>s_gridSize := 16777216, s_blockSize := 128\<rparr>"

section \<open>Proofs\<close>

subsection \<open>Closed forms of the steps of search\<close>

lemma and_then_simps [simp]:
  "and_then (Returned a, m) f = f a m"
  "and_then (Raised e, m) f = (Raised e, m)"
  "and_then (OutOfFuel, m) f = (OutOfFuel, m)"
  by (simp_all add: and_then_def)

lemma extract_solutions_eq:
  "extract_solutions E w nb buffer js m =
     (if list_all (\<lambda>j. j < length (result buffer)) js then Returned () else Raised out_of_bounds,
      m\<lparr>trace := trace m @
           map SubmitProof (Solutions_of E w nb (clock m) (m_index m)
             (map (\<lambda>j. result buffer ! j) (takeWhile (\<lambda>j. j < length (result buffer)) js))),
        clock := clock m + length (takeWhile (\<lambda>j. j < length (result buffer)) js)\<rparr>)"
proof (induction js arbitrary: m)
  case Nil
  show ?case by simp
next
  case (Cons j js)
  show ?case
    by (simp add: Cons.IH read_result_def emit_def tick_def Solution_of_def)
qed

lemma process_stream_error:
  assumes "cuda_status E (clock m) = Some what"
  shows "process_stream E cfg w i done sn m =
           (Raised (cuda_runtime_error what),
            m\<lparr>trace := trace m @ [CudaStreamSynchronize i], clock := Suc (clock m)\<rparr>)"
  using assms
  by (simp add: process_stream_def cudaStreamSynchronize_def cuda_safe_call_def emit_def tick_def)

lemma process_stream_eq:
  fixes E cfg w i d0 sn m
  defines "buf \<equiv> kernel_results E (clock m)"
    and "stop \<equiv> shouldStop E (Suc (clock m))"
  defines "fc \<equiv> min (count buf) (MAX_SEARCH_RESULTS cfg)"
  defines "js \<equiv> takeWhile (\<lambda>j. j < length (result buf)) [0..<unat fc]"
  defines "m3 \<equiv> m\<lparr>trace := trace m @
                   [CudaStreamSynchronize i, ObsKernelResults i buf, ObsShouldStop stop] @
                   map SubmitProof (Solutions_of E w (sn - ucast (m_streams_batch_size m))
                     (Suc (Suc (clock m))) (m_index m) (map (\<lambda>j. result buf ! j) js)),
                 clock := Suc (Suc (clock m)) + length js,
                 m_new_work := (\<not> stop \<and> m_new_work m),
                 m_search_buf := (m_search_buf m)(i := if fc \<noteq> 0 then buf\<lparr>count := 0\<rparr> else buf)\<rparr>"
  assumes ok: "cuda_status E (clock m) = None"
  shows "process_stream E cfg w i d0 sn m =
           (if \<not> list_all (\<lambda>j. j < length (result buf)) [0..<unat fc] then (Raised out_of_bounds, m3)
            else (Returned (stop \<or> d0),
                  if stop \<or> d0 then m3 else run_ethash_search cfg i sn m3))"
proof (cases "fc = 0")
  case True
  then have "js = []" by (simp add: js_def)
  with True ok show ?thesis
    unfolding m3_def
    by (auto simp add: process_stream_def cudaStreamSynchronize_def cuda_safe_call_def
        obs_shouldStop_def Let_def emit_def tick_def store_new_work_false_def
        run_ethash_search_def fc_def[symmetric] buf_def[symmetric] stop_def[symmetric])
next
  case False
  with ok show ?thesis
    unfolding m3_def
    by (auto simp add: process_stream_def cudaStreamSynchronize_def cuda_safe_call_def
        obs_shouldStop_def Let_def emit_def tick_def store_new_work_false_def
        extract_solutions_eq run_ethash_search_def
        fc_def[symmetric] buf_def[symmetric] stop_def[symmetric] js_def[symmetric])
qed

lemma steps_to_refl: "steps_to m m []"
  by (simp add: steps_to_def)

lemma steps_to_trans: "steps_to m m1 t \<Longrightarrow> steps_to m1 m2 u \<Longrightarrow> steps_to m m2 (t @ u)"
  by (simp add: steps_to_def)

lemma steps_to_new_events: "steps_to m m' t \<Longrightarrow> new_events m m' = t"
  by (simp add: steps_to_def new_events_def)

lemma issued_simps [simp]:
  "issued [] = []"
  "issued (e # t) = issue_of e @ issued t"
  "issued (t @ u) = issued t @ issued u"
  by (simp_all add: issued_def)

lemma issued_SubmitProof [simp]: "issued (map SubmitProof sols) = []"
  by (induction sols) simp_all

lemma process_stream_issued:
  assumes "process_stream E cfg w i d0 sn m = (r, m')"
  shows "\<exists>t. steps_to m m' t \<and> r \<noteq> OutOfFuel \<and>
           (\<forall>d. r = Returned d \<longrightarrow> (d0 \<longrightarrow> d) \<and> issued t = (if d then [] else [(i, sn)])) \<and>
           ((\<exists>e. r = Raised e) \<longrightarrow> issued t = [])"
proof (cases "cuda_status E (clock m)")
  case (Some what)
  from assms show ?thesis unfolding process_stream_error[OF Some]
    by (intro exI[of _ "[CudaStreamSynchronize i]"]) (auto simp: steps_to_def)
next
  case None
  from assms show ?thesis unfolding process_stream_eq[OF None]
    by (auto simp: steps_to_def run_ethash_search_def emit_def split: if_splits)
qed

lemma prime_streams_issued:
  "prime_streams cfg js sn m = (sn', m') \<Longrightarrow>
     sn' = sn + of_nat (length js) * ucast (m_batch_size m) \<and>
     (\<exists>t. steps_to m m' t \<and>
          issued t = map (\<lambda>k. (js ! k, sn + of_nat k * ucast (m_batch_size m))) [0..<length js])"
proof (induction js arbitrary: sn m)
  case Nil
  then show ?case by (auto intro!: exI[of _ "[]"] simp: steps_to_refl)
next
  case (Cons j js)
  define m2 where "m2 = run_ethash_search cfg j sn
      (m\<lparr>m_search_buf := (m_search_buf m)(j := (m_search_buf m j)\<lparr>count := 0\<rparr>)\<rparr>)"
  have st: "steps_to m m2 [RunEthashSearch (s_gridSize cfg) (s_blockSize cfg) j sn (s_parallelHash cfg)]"
    by (simp add: m2_def steps_to_def run_ethash_search_def emit_def)
  then have B: "m_batch_size m2 = m_batch_size m" by (simp add: steps_to_def)
  from Cons.prems have "prime_streams cfg js (sn + ucast (m_batch_size m)) m2 = (sn', m')"
    by (simp add: Let_def m2_def[symmetric] B)
  from Cons.IH[OF this] obtain t where
    sn': "sn' = sn + ucast (m_batch_size m) + of_nat (length js) * ucast (m_batch_size m)"
    and t: "steps_to m2 m' t"
    and it: "issued t = map (\<lambda>k. (js ! k, sn + ucast (m_batch_size m) + of_nat k * ucast (m_batch_size m))) [0..<length js]"
    by (auto simp: B)
  have "issued ([RunEthashSearch (s_gridSize cfg) (s_blockSize cfg) j sn (s_parallelHash cfg)] @ t)
      = map (\<lambda>k. ((j # js) ! k, sn + of_nat k * ucast (m_batch_size m))) [0..<length (j # js)]"
    by (simp add: it map_upt_Suc del: upt_Suc) (simp add: algebra_simps)
  with steps_to_trans[OF st t] sn' show ?case
    by (auto simp: algebra_simps)
qed

lemma search_streams_issued:
  "search_streams E cfg w js d0 sn m = (r, m') \<Longrightarrow>
     \<exists>t p. steps_to m m' t \<and> r \<noteq> OutOfFuel \<and> p \<le> length js \<and>
       issued t = map (\<lambda>k. (js ! k, sn + of_nat k * ucast (m_batch_size m))) [0..<p] \<and>
       (d0 \<longrightarrow> p = 0) \<and>
       (\<forall>d sn'. r = Returned (d, sn') \<longrightarrow>
          sn' = sn + of_nat (length js) * ucast (m_batch_size m) \<and>
          (\<not> d \<longrightarrow> p = length js) \<and> (d0 \<longrightarrow> d))"
proof (induction js arbitrary: d0 sn m)
  case Nil
  then show ?case
    by (intro exI[of _ "[]"] exI[of _ 0]) (auto simp: steps_to_refl)
next
  case (Cons j js)
  obtain r1 m1 where ps: "process_stream E cfg w j d0 sn m = (r1, m1)"
    by (cases "process_stream E cfg w j d0 sn m")
  from process_stream_issued[OF ps] obtain t1 where
    t1: "steps_to m m1 t1" and r1: "r1 \<noteq> OutOfFuel"
    and ret: "\<And>d. r1 = Returned d \<Longrightarrow> (d0 \<longrightarrow> d) \<and> issued t1 = (if d then [] else [(j, sn)])"
    and rai: "\<And>e. r1 = Raised e \<Longrightarrow> issued t1 = []"
    by blast
  from t1 have B: "m_batch_size m1 = m_batch_size m" by (simp add: steps_to_def)
  show ?case
  proof (cases r1)
    case (Returned d1)
    with Cons.prems ps
    have "search_streams E cfg w js d1 (sn + ucast (m_batch_size m)) m1 = (r, m')"
      by (simp add: B)
    from Cons.IH[OF this] obtain t2 p2 where
      t2: "steps_to m1 m' t2" and r: "r \<noteq> OutOfFuel" and p2: "p2 \<le> length js"
      and i2: "issued t2 = map (\<lambda>k. (js ! k, sn + ucast (m_batch_size m) + of_nat k * ucast (m_batch_size m))) [0..<p2]"
      and d1p: "d1 \<longrightarrow> p2 = 0"
      and fin: "\<And>d sn'. r = Returned (d, sn') \<Longrightarrow>
          sn' = sn + ucast (m_batch_size m) + of_nat (length js) * ucast (m_batch_size m) \<and>
          (\<not> d \<longrightarrow> p2 = length js) \<and> (d1 \<longrightarrow> d)"
      by (auto simp: B)
    note st = steps_to_trans[OF t1 t2]
    from ret[OF Returned] have d0d1: "d0 \<longrightarrow> d1"
      and i1: "issued t1 = (if d1 then [] else [(j, sn)])" by simp_all
    show ?thesis
    proof (cases d1)
      case True
      with d1p i1 i2 have "issued (t1 @ t2) = []" by simp
      with st r True fin show ?thesis
        by (intro exI[of _ "t1 @ t2"] exI[of _ 0]) (auto simp: algebra_simps)
    next
      case False
      with i1 i2 have "issued (t1 @ t2) =
          map (\<lambda>k. ((j # js) ! k, sn + of_nat k * ucast (m_batch_size m))) [0..<Suc p2]"
        by (simp add: map_upt_Suc del: upt_Suc) (simp add: algebra_simps)
      with st r False fin p2 d0d1 show ?thesis
        by (intro exI[of _ "t1 @ t2"] exI[of _ "Suc p2"]) (auto simp: algebra_simps)
    qed
  next
    case (Raised e)
    with Cons.prems ps have "r = Raised e" "m' = m1" by simp_all
    with t1 rai[OF Raised] show ?thesis
      by (intro exI[of _ t1] exI[of _ 0]) auto
  next
    case OutOfFuel
    with r1 show ?thesis by simp
  qed
qed

lemma map_upt_add:
  "map f [0..<a + b] = map f [0..<a] @ map (\<lambda>k. f (a + k)) [0..<b]"
proof -
  have "[0..<a + b] = [0..<a] @ map (\<lambda>k. a + k) [0..<b]"
    by (induction b) simp_all
  then show ?thesis by (simp add: comp_def)
qed

lemma search_loop_issued:
  "search_loop fuel E cfg w sn m = (r, m') \<Longrightarrow>
     \<exists>t K. steps_to m m' t \<and>
       issued t = map (\<lambda>k. (k mod unat (s_numStreams cfg),
                              sn + of_nat k * ucast (m_batch_size m))) [0..<K]"
proof (induction fuel arbitrary: sn m)
  case 0
  then show ?case
    by (intro exI[of _ "[]"] exI[of _ 0]) (auto simp: steps_to_refl)
next
  case (Suc fuel)
  define N where "N = unat (s_numStreams cfg)"
  define nw where "nw = (m_new_work m \<or> kicked E (clock m))"
  define m1 where "m1 = tick (emit (ObsNewWork nw) (m\<lparr>m_new_work := False\<rparr>))"
  define d0 where "d0 = (if \<not> nw then paused E (clock m1) else True)"
  define m2 where "m2 = (if \<not> nw then tick (emit (ObsPaused (paused E (clock m1))) m1) else m1)"
  have pre: "steps_to m m2 (ObsNewWork nw # (if \<not> nw then [ObsPaused (paused E (clock m1))] else []))"
    by (simp add: m2_def m1_def steps_to_def emit_def tick_def)
  have ipre: "issued (ObsNewWork nw # (if \<not> nw then [ObsPaused (paused E (clock m1))] else [])) = []"
    by simp
  from pre have B2: "m_batch_size m2 = m_batch_size m" by (simp add: steps_to_def)
  obtain rs ms where ss: "search_streams E cfg w [0..<N] d0 sn m2 = (rs, ms)"
    by (cases "search_streams E cfg w [0..<N] d0 sn m2")
  from search_streams_issued[OF ss] obtain ts p where
    ts: "steps_to m2 ms ts" and rs: "rs \<noteq> OutOfFuel" and p: "p \<le> N"
    and its: "issued ts = map (\<lambda>k. ([0..<N] ! k, sn + of_nat k * ucast (m_batch_size m))) [0..<p]"
    and fin: "\<And>d sn'. rs = Returned (d, sn') \<Longrightarrow>
          sn' = sn + of_nat N * ucast (m_batch_size m) \<and> (\<not> d \<longrightarrow> p = N)"
    by (auto simp: B2)
  have its': "issued ts = map (\<lambda>k. (k mod N, sn + of_nat k * ucast (m_batch_size m))) [0..<p]"
    unfolding its using p by (intro map_cong) auto
  note st2 = steps_to_trans[OF pre ts]
  have loop: "search_loop (Suc fuel) E cfg w sn m =
      and_then (rs, ms) (\<lambda>(done1, start_nonce1) m3.
              let m4 = emit (UpdateHashRate (m_batch_size m3) (s_numStreams cfg)) m3;
                  (stop, m5) = obs_shouldStop E m4
              in if stop then (Returned (), store_new_work_false m5)
                 else if done1 then (Returned (), m5)
                 else search_loop fuel E cfg w start_nonce1 m5)"
    using ss
    by (auto simp: compare_exchange_new_work_def obs_paused_def Let_def N_def
        nw_def m1_def m2_def d0_def)
  from Suc.prems have res: "and_then (rs, ms) (\<lambda>(done1, start_nonce1) m3.
              let m4 = emit (UpdateHashRate (m_batch_size m3) (s_numStreams cfg)) m3;
                  (stop, m5) = obs_shouldStop E m4
              in if stop then (Returned (), store_new_work_false m5)
                 else if done1 then (Returned (), m5)
                 else search_loop fuel E cfg w start_nonce1 m5) = (r, m')"
    unfolding loop .
  show ?case
  proof (cases rs)
    case (Returned x)
    obtain d1 sn1 where x: "x = (d1, sn1)" by (cases x)
    define m4 where "m4 = emit (UpdateHashRate (m_batch_size ms) (s_numStreams cfg)) ms"
    define stop where "stop = shouldStop E (clock m4)"
    define m5 where "m5 = tick (emit (ObsShouldStop stop) m4)"
    have post: "steps_to ms m5 [UpdateHashRate (m_batch_size ms) (s_numStreams cfg), ObsShouldStop stop]"
      by (simp add: m5_def m4_def steps_to_def emit_def tick_def)
    note st5 = steps_to_trans[OF st2 post]
    from st5 have B5: "m_batch_size m5 = m_batch_size m" by (simp add: steps_to_def)
    from fin[OF Returned[unfolded x]] have sn1: "sn1 = sn + of_nat N * ucast (m_batch_size m)"
      and pN: "\<not> d1 \<Longrightarrow> p = N" by simp_all
    show ?thesis
    proof (cases "stop \<or> d1")
      case True
      with res Returned x have "steps_to m5 m' []"
        by (auto simp: obs_shouldStop_def Let_def m4_def stop_def m5_def emit_def tick_def
            steps_to_def store_new_work_false_def split: if_splits)
      from steps_to_trans[OF st5 this] its' show ?thesis
        by (intro exI[of _ "((ObsNewWork nw # (if \<not> nw then [ObsPaused (paused E (clock m1))] else [])) @ ts) @
              [UpdateHashRate (m_batch_size ms) (s_numStreams cfg), ObsShouldStop stop] @ []"]
            exI[of _ p]) (simp add: N_def)
    next
      case False
      with res Returned x have "search_loop fuel E cfg w sn1 m5 = (r, m')"
        by (auto simp: obs_shouldStop_def Let_def m4_def stop_def m5_def emit_def tick_def
            split: if_splits)
      from Suc.IH[OF this] obtain t' K where t': "steps_to m5 m' t'"
        and it': "issued t' = map (\<lambda>k. (k mod N, sn1 + of_nat k * ucast (m_batch_size m))) [0..<K]"
        by (auto simp: B5 N_def)
      from False pN have pN': "p = N" by simp
      have shift: "(\<lambda>k. (k mod N, sn1 + of_nat k * ucast (m_batch_size m))) =
                   (\<lambda>k. ((N + k) mod N, sn + of_nat (N + k) * ucast (m_batch_size m)))"
        by (rule ext) (simp add: sn1 algebra_simps)
      have "issued ts @ issued t' =
            map (\<lambda>k. (k mod N, sn + of_nat k * ucast (m_batch_size m))) [0..<N + K]"
        unfolding its' it' pN' shift
        by (rule map_upt_add[symmetric])
      then have "issued ((((ObsNewWork nw # (if \<not> nw then [ObsPaused (paused E (clock m1))] else [])) @ ts) @
              [UpdateHashRate (m_batch_size ms) (s_numStreams cfg), ObsShouldStop stop]) @ t')
          = map (\<lambda>k. (k mod N, sn + of_nat k * ucast (m_batch_size m))) [0..<N + K]"
        by simp
      with steps_to_trans[OF st5 t'] show ?thesis
        unfolding N_def by blast
    qed
  next
    case (Raised e)
    with res have "m' = ms" by simp
    with st2 its' show ?thesis
      by (intro exI[of _ "(ObsNewWork nw # (if \<not> nw then [ObsPaused (paused E (clock m1))] else [])) @ ts"]
            exI[of _ p]) (simp add: N_def)
  next
    case OutOfFuel
    with rs show ?thesis by simp
  qed
qed

lemma search_issued:
  "\<exists>K. issued (new_events m (snd (search fuel E cfg hdr target s w m))) =
         map (\<lambda>k. (k mod unat (s_numStreams cfg), s + of_nat k * ucast (m_batch_size m))) [0..<K]"
proof -
  define N where "N = unat (s_numStreams cfg)"
  define m2 where "m2 = (if m_current_target m \<noteq> target
                then (emit (SetTarget target) (emit (SetHeader hdr) m))\<lparr>m_current_target := target\<rparr>
                else emit (SetHeader hdr) m)"
  have pre: "steps_to m m2 (SetHeader hdr # (if m_current_target m \<noteq> target then [SetTarget target] else []))"
    by (simp add: m2_def steps_to_def emit_def)
  then have B2: "m_batch_size m2 = m_batch_size m" by (simp add: steps_to_def)
  obtain sn1 m3 where pr: "prime_streams cfg [0..<N] s m2 = (sn1, m3)"
    by (cases "prime_streams cfg [0..<N] s m2")
  from prime_streams_issued[OF pr] obtain t1 where
    sn1: "sn1 = s + of_nat N * ucast (m_batch_size m)" and t1: "steps_to m2 m3 t1"
    and i1: "issued t1 = map (\<lambda>k. ([0..<N] ! k, s + of_nat k * ucast (m_batch_size m))) [0..<N]"
    by (auto simp: B2)
  have i1': "issued t1 = map (\<lambda>k. (k mod N, s + of_nat k * ucast (m_batch_size m))) [0..<N]"
    unfolding i1 by (intro map_cong) auto
  note st3 = steps_to_trans[OF pre t1]
  then have B3: "m_batch_size m3 = m_batch_size m" by (simp add: steps_to_def)
  obtain r m' where sl: "search_loop fuel E cfg w sn1 m3 = (r, m')"
    by (cases "search_loop fuel E cfg w sn1 m3")
  from search_loop_issued[OF sl] obtain t2 K where t2: "steps_to m3 m' t2"
    and i2: "issued t2 = map (\<lambda>k. (k mod N, sn1 + of_nat k * ucast (m_batch_size m))) [0..<K]"
    by (auto simp: B3 N_def)
  have shift: "(\<lambda>k. (k mod N, sn1 + of_nat k * ucast (m_batch_size m))) =
               (\<lambda>k. ((N + k) mod N, s + of_nat (N + k) * ucast (m_batch_size m)))"
    by (rule ext) (simp add: sn1 algebra_simps)
  have "issued t1 @ issued t2 =
        map (\<lambda>k. (k mod N, s + of_nat k * ucast (m_batch_size m))) [0..<N + K]"
    unfolding i1' i2 shift by (rule map_upt_add[symmetric])
  then have iss: "issued (((SetHeader hdr # (if m_current_target m \<noteq> target then [SetTarget target] else [])) @ t1) @ t2)
      = map (\<lambda>k. (k mod N, s + of_nat k * ucast (m_batch_size m))) [0..<N + K]"
    by simp
  have "search fuel E cfg hdr target s w m = (r, m')"
    using pr sl by (auto simp: search_def Let_def m2_def N_def emit_def split: if_splits)
  with steps_to_new_events[OF steps_to_trans[OF st3 t2]] iss show ?thesis
    unfolding N_def by auto
qed

lemma unat_ucast_32_64: "unat (ucast (B :: 32 word) :: 64 word) = unat B"
proof -
  have "unat B < 2 ^ 32" using unsigned_less[of B] by simp
  then have "unat B < 2 ^ 64" by simp
  then show ?thesis by (simp add: unsigned_ucast_eq take_bit_nat_eq_self)
qed

lemma unat_batch_base:
  fixes s :: "64 word" and B :: "32 word"
  assumes "unat s + k * unat B < 2 ^ 64"
  shows "unat (s + of_nat k * ucast B) = unat s + k * unat B"
proof -
  have "unat (s + of_nat k * ucast B) = (unat s + k * unat B) mod 2 ^ 64"
    by (simp add: unat_word_ariths unat_of_nat unat_ucast_32_64 mod_simps)
  with assms show ?thesis by simp
qed

lemma Union_batches:
  "(\<Union>k<K. {a + k * b ..< a + k * b + b}) = {a ..< a + K * (b::nat)}"
proof (induction K)
  case 0
  show ?case by simp
next
  case (Suc K)
  have "(\<Union>k<Suc K. {a + k * b ..< a + k * b + b}) =
        {a ..< a + K * b} \<union> {a + K * b ..< a + K * b + b}"
    by (simp add: lessThan_Suc Suc.IH Un_commute)
  also have "\<dots> = {a ..< a + Suc K * b}"
    by (auto simp: algebra_simps)
  finally show ?case .
qed

lemma round_robin_partition:
  fixes s :: "64 word" and B :: "32 word"
  assumes rr: "round_robin N s B bs" and fit: "unat s + length bs * unat B \<le> 2 ^ 64"
  shows "nonce_partition s B bs"
proof -
  have base: "unat (snd (bs ! k)) = unat s + k * unat B" if k: "k < length bs" for k
  proof (cases "unat B = 0")
    case True
    then have "B = 0" by (simp add: unat_eq_0)
    with rr k show ?thesis by (simp add: round_robin_def)
  next
    case False
    from k have "Suc k * unat B \<le> length bs * unat B" by (intro mult_le_mono1) simp
    with False fit have "unat s + k * unat B < 2 ^ 64" by simp
    from unat_batch_base[OF this] rr k show ?thesis by (simp add: round_robin_def)
  qed
  have mono: "unat (snd (bs ! j)) + unat B \<le> unat (snd (bs ! k))" if "k < length bs" "j < k" for j k
  proof -
    from that have "Suc j * unat B \<le> k * unat B" by (intro mult_le_mono1) simp
    with that show ?thesis by (simp add: base)
  qed
  have disj: "batch_range B (bs ! j) \<inter> batch_range B (bs ! k) = {}" if "k < length bs" "j < k" for j k
    using mono[OF that] by (auto simp: batch_range_def)
  have "(\<Union>k<length bs. batch_range B (bs ! k)) =
        (\<Union>k<length bs. {unat s + k * unat B ..< unat s + k * unat B + unat B})"
    by (intro SUP_cong refl) (simp add: batch_range_def base)
  also have "\<dots> = {unat s ..< unat s + length bs * unat B}"
    by (rule Union_batches)
  finally show ?thesis
    using mono disj by (simp add: nonce_partition_def)
qed

subsection \<open>What one drain hands over\<close>

lemma submitted_simps [simp]:
  "submitted [] = []"
  "submitted (e # t) = submit_of e @ submitted t"
  "submitted (t @ u) = submitted t @ submitted u"
  by (simp_all add: submitted_def)

lemma submitted_SubmitProof [simp]: "submitted (map SubmitProof sols) = sols"
  by (induction sols) simp_all

lemma length_Solutions_of [simp]: "length (Solutions_of E w nb t idx rs) = length rs"
  by (induction rs arbitrary: t) simp_all

lemma mixHash_Solutions_of: "map mixHash (Solutions_of E w nb t idx rs) = map mix rs"
  by (induction rs arbitrary: t) (simp_all add: Solution_of_def)

lemma nonce_Solutions_of:
  "map nonce (Solutions_of E w nb t idx rs) = map (\<lambda>r. nb + ucast (gid r)) rs"
  by (induction rs arbitrary: t) (simp_all add: Solution_of_def)

lemma work_Solutions_of: "map work (Solutions_of E w nb t idx rs) = replicate (length rs) w"
  by (induction rs arbitrary: t) (simp_all add: Solution_of_def)

lemma midx_Solutions_of: "map midx (Solutions_of E w nb t idx rs) = replicate (length rs) idx"
  by (induction rs arbitrary: t) (simp_all add: Solution_of_def)

lemma tstamp_Solutions_of:
  "map tstamp (Solutions_of E w nb t idx rs) = map (\<lambda>k. steady_clock_now E (t + k)) [0..<length rs]"
proof (induction rs arbitrary: t)
  case Nil
  show ?case by simp
next
  case (Cons r rs)
  have "[0..<length (r # rs)] = 0 # map Suc [0..<length rs]"
    by (simp add: upt_conv_Cons map_Suc_upt del: upt_Suc)
  then show ?case
    by (simp add: Cons.IH Solution_of_def comp_def del: upt_Suc)
qed

lemma takeWhile_upt: "takeWhile (\<lambda>j. j < L) [0..<k] = [0..<min k L]"
proof (induction k)
  case 0
  show ?case by simp
next
  case (Suc k)
  consider "k < L" | "k = L" | "L < k" by arith
  then show ?case
  proof cases
    case 1
    then have "\<forall>j\<in>set [0..<k]. j < L" by simp
    with 1 Suc show ?thesis by (simp add: takeWhile_append2 min_def)
  next
    case 2
    have "takeWhile (\<lambda>j. j < L) ([0..<k] @ [k]) = [0..<k] @ takeWhile (\<lambda>j. j < L) [k]"
      using 2 by (intro takeWhile_append2) simp
    with 2 show ?thesis by simp
  next
    case 3
    then have "L \<in> set [0..<k]" "\<not> L < L" by simp_all
    then have "takeWhile (\<lambda>j. j < L) ([0..<k] @ [k]) = takeWhile (\<lambda>j. j < L) [0..<k]"
      by (rule takeWhile_append1)
    with 3 Suc show ?thesis by (simp add: min_def)
  qed
qed

lemma map_nth_upt_take: "map (\<lambda>j. f (xs ! j)) [0..<min k (length xs)] = map f (take k xs)"
proof -
  have "map (\<lambda>j. f (xs ! j)) [0..<min k (length xs)] = map f (map (\<lambda>j. xs ! j) [0..<min k (length xs)])"
    by simp
  also have "map (\<lambda>j. xs ! j) [0..<min k (length xs)] = take k xs"
    by (rule nth_equalityI) auto
  finally show ?thesis .
qed

lemma entries_read:
  "map (\<lambda>j. xs ! j) (takeWhile (\<lambda>j. j < length xs) [0..<k]) = take k xs"
  using map_nth_upt_take[of "\<lambda>x. x" xs k] by (simp add: takeWhile_upt)

lemma process_stream_submitted:
  assumes "process_stream E cfg w i d0 sn m = (r, m')"
  shows "submitted (new_events m m') =
           (case cuda_status E (clock m) of
              Some what \<Rightarrow> []
            | None \<Rightarrow>
                Solutions_of E w (sn - ucast (m_streams_batch_size m)) (Suc (Suc (clock m))) (m_index m)
                  (take (unat (min (count (kernel_results E (clock m))) (MAX_SEARCH_RESULTS cfg)))
                     (result (kernel_results E (clock m)))))"
proof (cases "cuda_status E (clock m)")
  case (Some what)
  from assms show ?thesis unfolding process_stream_error[OF Some]
    by (auto simp: Some new_events_def)
next
  case None
  from assms show ?thesis unfolding process_stream_eq[OF None]
    by (auto simp: None new_events_def run_ethash_search_def emit_def entries_read split: if_splits)
qed

lemma process_stream_in_bounds:
  assumes "process_stream E cfg w i d0 sn m = (r, m')"
    and "length (result (kernel_results E (clock m))) = unat (MAX_SEARCH_RESULTS cfg)"
  shows "r \<noteq> Raised out_of_bounds"
proof (cases "cuda_status E (clock m)")
  case (Some what)
  from assms show ?thesis unfolding process_stream_error[OF Some] by auto
next
  case None
  have "unat (min (count (kernel_results E (clock m))) (MAX_SEARCH_RESULTS cfg))
          \<le> unat (MAX_SEARCH_RESULTS cfg)"
    by (simp add: word_le_nat_alt[symmetric])
  with assms(2) have "list_all (\<lambda>j. j < length (result (kernel_results E (clock m))))
          [0..<unat (min (count (kernel_results E (clock m))) (MAX_SEARCH_RESULTS cfg))]"
    by (simp add: list_all_iff)
  with assms(1) show ?thesis unfolding process_stream_eq[OF None]
    by (auto split: if_splits)
qed

subsection \<open>The drain check along a search\<close>

lemma drain_step_submits:
  "foldl (drain_step M) (bases, map (\<lambda>r. (b + ucast (gid r), mix r)) rs, ok)
     (map SubmitProof (Solutions_of E w b t idx rs)) = (bases, [], ok)"
  by (induction rs arbitrary: ok t) (simp_all add: Solution_of_def)

lemma process_stream_steps:
  assumes "process_stream E cfg w i d0 sn m = (r, m')"
  shows "steps_to m m' (new_events m m')"
  using process_stream_issued[OF assms] steps_to_new_events by metis

lemma process_stream_drain_check:
  assumes run: "process_stream E cfg w i d0 sn m = (r, m')"
    and base: "bases i = Some (sn - ucast (m_streams_batch_size m))"
  shows "foldl (drain_step (MAX_SEARCH_RESULTS cfg)) (bases, [], True) (new_events m m') =
           ((if r = Returned False then bases(i \<mapsto> sn) else bases), [], True)"
proof (cases "cuda_status E (clock m)")
  case (Some what)
  from run show ?thesis unfolding process_stream_error[OF Some]
    by (auto simp: new_events_def)
next
  case None
  from run base show ?thesis unfolding process_stream_eq[OF None]
    by (auto simp: new_events_def run_ethash_search_def emit_def entries_read
        drain_step_submits split: if_splits)
qed

lemma process_stream_done:
  assumes run: "process_stream E cfg w i d0 sn m = (r, m')"
  shows "r \<noteq> OutOfFuel \<and> (\<forall>d. r = Returned d \<longrightarrow> (d0 \<longrightarrow> d))"
  using process_stream_issued[OF assms] by blast

lemma new_events_trans:
  "steps_to m m1 t \<Longrightarrow> steps_to m1 m2 u \<Longrightarrow> new_events m m2 = new_events m m1 @ new_events m1 m2"
  by (simp add: steps_to_def new_events_def)

lemma search_streams_steps:
  assumes "search_streams E cfg w js d0 sn m = (r, m')"
  shows "steps_to m m' (new_events m m')"
  using search_streams_issued[OF assms] steps_to_new_events by metis

lemma search_loop_steps:
  assumes "search_loop fuel E cfg w sn m = (r, m')"
  shows "steps_to m m' (new_events m m')"
  using search_loop_issued[OF assms] steps_to_new_events by metis

lemma search_streams_drain_check:
  fixes B :: "64 word"
  assumes "search_streams E cfg w [a..<N] d0 sn m = (r, m')"
    and "a \<le> N"
    and "B = ucast (m_batch_size m)"
    and "ucast (m_streams_batch_size m) = of_nat N * B"
    and "\<forall>j. a \<le> j \<and> j < N \<longrightarrow> bases j = Some (sn - of_nat (N + a - j) * B)"
    and "\<not> d0 \<longrightarrow> (\<forall>j<a. bases j = Some (sn - of_nat (a - j) * B))"
  shows "\<exists>bases'. foldl (drain_step (MAX_SEARCH_RESULTS cfg)) (bases, [], True) (new_events m m')
                    = (bases', [], True) \<and>
           (\<forall>d sn'. r = Returned (d, sn') \<longrightarrow> sn' = sn + of_nat (N - a) * B \<and>
              (\<not> d \<longrightarrow> (\<forall>j<N. bases' j = Some (sn' - of_nat (N - j) * B))))"
  using assms
proof (induction "N - a" arbitrary: a d0 sn m bases)
  case 0
  then have "a = N" by simp
  with 0 show ?case by (auto simp: new_events_def)
next
  case (Suc n)
  then have aN: "a < N" by simp
  then have upt: "[a..<N] = a # [Suc a..<N]" by (rule upt_conv_Cons)
  obtain r1 m1 where ps: "process_stream E cfg w a d0 sn m = (r1, m1)"
    by (cases "process_stream E cfg w a d0 sn m")
  note st1 = process_stream_steps[OF ps]
  then have B1: "m_batch_size m1 = m_batch_size m"
    and S1: "m_streams_batch_size m1 = m_streams_batch_size m" by (simp_all add: steps_to_def)
  from Suc.prems(5) aN have "bases a = Some (sn - of_nat N * B)" by simp
  with Suc.prems(4) have ba: "bases a = Some (sn - ucast (m_streams_batch_size m))" by simp
  note chk1 = process_stream_drain_check[where bases = bases, OF ps ba]
  from process_stream_done[OF ps] have r1: "r1 \<noteq> OutOfFuel"
    and d01: "\<And>d. r1 = Returned d \<Longrightarrow> d0 \<longrightarrow> d" by blast+
  show ?case
  proof (cases r1)
    case (Returned d1)
    define bases1 where "bases1 = (if d1 then bases else bases(a \<mapsto> sn))"
    from Suc.prems(1) ps Returned
    have rest: "search_streams E cfg w [Suc a..<N] d1 (sn + B) m1 = (r, m')"
      by (simp add: upt B1 Suc.prems(3))
    have I: "\<forall>j. Suc a \<le> j \<and> j < N \<longrightarrow> bases1 j = Some (sn + B - of_nat (N + Suc a - j) * B)"
    proof (intro allI impI)
      fix j assume j: "Suc a \<le> j \<and> j < N"
      then have "of_nat (N + Suc a - j) = (of_nat (N + a - j) + 1 :: 64 word)"
        by (simp add: Suc_diff_le)
      with j Suc.prems(5) show "bases1 j = Some (sn + B - of_nat (N + Suc a - j) * B)"
        by (simp add: bases1_def algebra_simps)
    qed
    have J: "\<not> d1 \<longrightarrow> (\<forall>j<Suc a. bases1 j = Some (sn + B - of_nat (Suc a - j) * B))"
    proof (intro allI impI)
      fix j assume d1: "\<not> d1" and j: "j < Suc a"
      with d01[OF Returned] have nd0: "\<not> d0" by blast
      show "bases1 j = Some (sn + B - of_nat (Suc a - j) * B)"
      proof (cases "j = a")
        case True
        with d1 show ?thesis by (simp add: bases1_def)
      next
        case False
        with j have ja: "j < a" by simp
        then have "of_nat (Suc a - j) = (of_nat (a - j) + 1 :: 64 word)"
          by (simp add: Suc_diff_le)
        with ja nd0 d1 False Suc.prems(6) show ?thesis
          by (simp add: bases1_def algebra_simps)
      qed
    qed
    from Suc.hyps(2) have n: "n = N - Suc a" by simp
    from Suc.hyps(1)[OF n rest _ _ _ I J] aN Suc.prems(3,4) B1 S1
    obtain bases' where
      chk2: "foldl (drain_step (MAX_SEARCH_RESULTS cfg)) (bases1, [], True) (new_events m1 m') = (bases', [], True)"
      and fin: "\<And>d sn'. r = Returned (d, sn') \<Longrightarrow> sn' = sn + B + of_nat (N - Suc a) * B \<and>
              (\<not> d \<longrightarrow> (\<forall>j<N. bases' j = Some (sn' - of_nat (N - j) * B)))"
      by auto
    have "of_nat (N - a) = (of_nat (N - Suc a) + 1 :: 64 word)"
      using aN by (simp add: Suc_diff_Suc)
    then have sn_eq: "sn + B + of_nat (N - Suc a) * B = sn + of_nat (N - a) * B"
      by (simp add: algebra_simps)
    from chk1 chk2 Returned
    have "foldl (drain_step (MAX_SEARCH_RESULTS cfg)) (bases, [], True) (new_events m m') = (bases', [], True)"
      unfolding new_events_trans[OF st1 search_streams_steps[OF rest]]
      by (cases d1) (simp_all add: bases1_def)
    with fin sn_eq show ?thesis by auto
  next
    case (Raised e)
    with Suc.prems(1) ps have "r = Raised e" "m' = m1" by (simp_all add: upt)
    with chk1 Raised show ?thesis by auto
  next
    case OutOfFuel
    with r1 show ?thesis by simp
  qed
qed

lemma search_loop_drain_check:
  fixes B :: "64 word"
  assumes "search_loop fuel E cfg w sn m = (r, m')"
    and "N = unat (s_numStreams cfg)"
    and "B = ucast (m_batch_size m)"
    and "ucast (m_streams_batch_size m) = of_nat N * B"
    and "\<forall>j<N. bases j = Some (sn - of_nat (N - j) * B)"
  shows "\<exists>bases'. foldl (drain_step (MAX_SEARCH_RESULTS cfg)) (bases, [], True) (new_events m m')
                    = (bases', [], True)"
  using assms
proof (induction fuel arbitrary: sn m bases)
  case 0
  then show ?case by (auto simp: new_events_def)
next
  case (Suc fuel)
  define nw where "nw = (m_new_work m \<or> kicked E (clock m))"
  define m1 where "m1 = tick (emit (ObsNewWork nw) (m\<lparr>m_new_work := False\<rparr>))"
  define d0 where "d0 = (if \<not> nw then paused E (clock m1) else True)"
  define m2 where "m2 = (if \<not> nw then tick (emit (ObsPaused (paused E (clock m1))) m1) else m1)"
  define pre where "pre = ObsNewWork nw # (if \<not> nw then [ObsPaused (paused E (clock m1))] else [])"
  have pre: "steps_to m m2 pre"
    by (simp add: pre_def m2_def m1_def steps_to_def emit_def tick_def)
  have cpre: "foldl (drain_step (MAX_SEARCH_RESULTS cfg)) (bases, [], True) pre = (bases, [], True)"
    by (simp add: pre_def)
  from pre have B2: "m_batch_size m2 = m_batch_size m"
    and S2: "m_streams_batch_size m2 = m_streams_batch_size m" by (simp_all add: steps_to_def)
  obtain rs ms where ss: "search_streams E cfg w [0..<N] d0 sn m2 = (rs, ms)"
    by (cases "search_streams E cfg w [0..<N] d0 sn m2")
  note sts = search_streams_steps[OF ss]
  from search_streams_drain_check[OF ss, of B bases] Suc.prems(3,4,5) B2 S2
  obtain bases1 where
    chk1: "foldl (drain_step (MAX_SEARCH_RESULTS cfg)) (bases, [], True) (new_events m2 ms) = (bases1, [], True)"
    and fin: "\<And>d sn'. rs = Returned (d, sn') \<Longrightarrow> sn' = sn + of_nat N * B \<and>
              (\<not> d \<longrightarrow> (\<forall>j<N. bases1 j = Some (sn' - of_nat (N - j) * B)))"
    by auto
  note st2 = steps_to_trans[OF pre sts]
  have chk2: "foldl (drain_step (MAX_SEARCH_RESULTS cfg)) (bases, [], True) (pre @ new_events m2 ms) = (bases1, [], True)"
    using cpre chk1 by simp
  have loop: "search_loop (Suc fuel) E cfg w sn m =
      and_then (rs, ms) (\<lambda>(done1, start_nonce1) m3.
              let m4 = emit (UpdateHashRate (m_batch_size m3) (s_numStreams cfg)) m3;
                  (stop, m5) = obs_shouldStop E m4
              in if stop then (Returned (), store_new_work_false m5)
                 else if done1 then (Returned (), m5)
                 else search_loop fuel E cfg w start_nonce1 m5)"
    using ss
    by (auto simp: compare_exchange_new_work_def obs_paused_def Let_def Suc.prems(2)
        nw_def m1_def m2_def d0_def)
  from Suc.prems(1) have res: "and_then (rs, ms) (\<lambda>(done1, start_nonce1) m3.
              let m4 = emit (UpdateHashRate (m_batch_size m3) (s_numStreams cfg)) m3;
                  (stop, m5) = obs_shouldStop E m4
              in if stop then (Returned (), store_new_work_false m5)
                 else if done1 then (Returned (), m5)
                 else search_loop fuel E cfg w start_nonce1 m5) = (r, m')"
    unfolding loop .
  show ?case
  proof (cases rs)
    case (Returned x)
    obtain d1 sn1 where x: "x = (d1, sn1)" by (cases x)
    define m4 where "m4 = emit (UpdateHashRate (m_batch_size ms) (s_numStreams cfg)) ms"
    define stop where "stop = shouldStop E (clock m4)"
    define m5 where "m5 = tick (emit (ObsShouldStop stop) m4)"
    define post where "post = [UpdateHashRate (m_batch_size ms) (s_numStreams cfg), ObsShouldStop stop]"
    have post: "steps_to ms m5 post"
      by (simp add: post_def m5_def m4_def steps_to_def emit_def tick_def)
    note st5 = steps_to_trans[OF st2 post]
    from st5 have B5: "m_batch_size m5 = m_batch_size m"
      and S5: "m_streams_batch_size m5 = m_streams_batch_size m" by (simp_all add: steps_to_def)
    have chk5: "foldl (drain_step (MAX_SEARCH_RESULTS cfg)) (bases, [], True)
                  ((pre @ new_events m2 ms) @ post) = (bases1, [], True)"
      using chk2 by (simp add: post_def)
    show ?thesis
    proof (cases "stop \<or> d1")
      case True
      with res Returned x have "steps_to m5 m' []"
        by (auto simp: obs_shouldStop_def Let_def m4_def stop_def m5_def emit_def tick_def
            steps_to_def store_new_work_false_def split: if_splits)
      from steps_to_new_events[OF steps_to_trans[OF st5 this]] chk5 show ?thesis by simp
    next
      case False
      with res Returned x have rec: "search_loop fuel E cfg w sn1 m5 = (r, m')"
        by (auto simp: obs_shouldStop_def Let_def m4_def stop_def m5_def emit_def tick_def
            split: if_splits)
      from fin[OF Returned[unfolded x]] False
      have "\<forall>j<N. bases1 j = Some (sn1 - of_nat (N - j) * B)" by simp
      from Suc.IH[OF rec Suc.prems(2) _ _ this] Suc.prems(3,4) B5 S5
      obtain bases' where "foldl (drain_step (MAX_SEARCH_RESULTS cfg)) (bases1, [], True)
           (new_events m5 m') = (bases', [], True)" by auto
      with chk5 steps_to_new_events[OF steps_to_trans[OF st5 search_loop_steps[OF rec]]]
      show ?thesis by simp
    qed
  next
    case (Raised e)
    with res have "m' = ms" by simp
    with steps_to_new_events[OF st2] chk2 show ?thesis by simp
  next
    case OutOfFuel
    with search_streams_issued[OF ss] show ?thesis by blast
  qed
qed

lemma prime_streams_drain_check:
  fixes B :: "64 word"
  assumes "prime_streams cfg [a..<N] sn m = (sn', m')"
    and "a \<le> N"
    and "B = ucast (m_batch_size m)"
    and "\<forall>j<a. bases j = Some (sn - of_nat (a - j) * B)"
  shows "\<exists>bases'. foldl (drain_step M) (bases, [], True) (new_events m m') = (bases', [], True) \<and>
           (\<forall>j<N. bases' j = Some (sn' - of_nat (N - j) * B)) \<and> steps_to m m' (new_events m m')"
  using assms
proof (induction "N - a" arbitrary: a sn m bases)
  case 0
  then show ?case by (auto simp: new_events_def steps_to_def)
next
  case (Suc n)
  then have aN: "a < N" by simp
  then have upt: "[a..<N] = a # [Suc a..<N]" by (rule upt_conv_Cons)
  define ev where "ev = RunEthashSearch (s_gridSize cfg) (s_blockSize cfg) a sn (s_parallelHash cfg)"
  define m2 where "m2 = run_ethash_search cfg a sn
      (m\<lparr>m_search_buf := (m_search_buf m)(a := (m_search_buf m a)\<lparr>count := 0\<rparr>)\<rparr>)"
  have st: "steps_to m m2 [ev]"
    by (simp add: m2_def ev_def steps_to_def run_ethash_search_def emit_def)
  then have B2: "m_batch_size m2 = m_batch_size m" by (simp add: steps_to_def)
  from Suc.prems(1) have rest: "prime_streams cfg [Suc a..<N] (sn + B) m2 = (sn', m')"
    by (simp add: upt Let_def m2_def[symmetric] B2 Suc.prems(3))
  have J: "\<forall>j<Suc a. (bases(a \<mapsto> sn)) j = Some (sn + B - of_nat (Suc a - j) * B)"
  proof (intro allI impI)
    fix j assume j: "j < Suc a"
    show "(bases(a \<mapsto> sn)) j = Some (sn + B - of_nat (Suc a - j) * B)"
    proof (cases "j = a")
      case True
      then show ?thesis by simp
    next
      case False
      with j have ja: "j < a" by simp
      then have "of_nat (Suc a - j) = (of_nat (a - j) + 1 :: 64 word)"
        by (simp add: Suc_diff_le)
      with ja False Suc.prems(4) show ?thesis by (simp add: algebra_simps)
    qed
  qed
  from Suc.hyps(2) have n: "n = N - Suc a" by simp
  from aN have le: "Suc a \<le> N" by simp
  from Suc.prems(3) B2 have Bm2: "B = ucast (m_batch_size m2)" by simp
  from Suc.hyps(1)[OF n rest le Bm2 J]
  obtain bases' where
    chk: "foldl (drain_step M) (bases(a \<mapsto> sn), [], True) (new_events m2 m') = (bases', [], True)"
    and fin: "\<forall>j<N. bases' j = Some (sn' - of_nat (N - j) * B)"
    and st': "steps_to m2 m' (new_events m2 m')"
    by blast
  from steps_to_new_events[OF steps_to_trans[OF st st']] chk fin steps_to_trans[OF st st']
  show ?case by (auto simp: ev_def)
qed

lemma streams_batch_size_exact:
  fixes B S Nw :: "32 word"
  assumes "S = B * Nw" and "unat B * unat Nw < 2 ^ 32"
  shows "(ucast S :: 64 word) = of_nat (unat Nw) * ucast B"
proof -
  from assms have "unat S = unat B * unat Nw"
    by (simp add: unat_word_ariths)
  have "(ucast S :: 64 word) = of_nat (unat S)" by simp
  also have "\<dots> = of_nat (unat B * unat Nw)" by (simp only: \<open>unat S = unat B * unat Nw\<close>)
  also have "\<dots> = of_nat (unat Nw) * of_nat (unat B)" by (simp add: mult.commute)
  also have "\<dots> = of_nat (unat Nw) * ucast B" by simp
  finally show ?thesis .
qed

lemma search_drain_check:
  assumes "m_streams_batch_size m = m_batch_size m * s_numStreams cfg"
    and "unat (m_batch_size m) * unat (s_numStreams cfg) < 2 ^ 32"
  shows "drains_from_last_batch (MAX_SEARCH_RESULTS cfg)
           (new_events m (snd (search fuel E cfg hdr target s w m)))"
proof -
  define N where "N = unat (s_numStreams cfg)"
  define B :: "64 word" where "B = ucast (m_batch_size m)"
  have rel: "ucast (m_streams_batch_size m) = of_nat N * B"
    unfolding N_def B_def using assms by (rule streams_batch_size_exact)
  define pre where "pre = SetHeader hdr # (if m_current_target m \<noteq> target then [SetTarget target] else [])"
  define m2 where "m2 = (if m_current_target m \<noteq> target
                then (emit (SetTarget target) (emit (SetHeader hdr) m))\<lparr>m_current_target := target\<rparr>
                else emit (SetHeader hdr) m)"
  have pre: "steps_to m m2 pre"
    by (simp add: pre_def m2_def steps_to_def emit_def)
  then have B2: "m_batch_size m2 = m_batch_size m"
    and S2: "m_streams_batch_size m2 = m_streams_batch_size m" by (simp_all add: steps_to_def)
  have cpre: "foldl (drain_step (MAX_SEARCH_RESULTS cfg)) (Map.empty, [], True) pre = (Map.empty, [], True)"
    by (simp add: pre_def)
  obtain sn1 m3 where pr: "prime_streams cfg [0..<N] s m2 = (sn1, m3)"
    by (cases "prime_streams cfg [0..<N] s m2")
  from prime_streams_drain_check[OF pr, of B Map.empty "MAX_SEARCH_RESULTS cfg"] B2
  obtain bases1 where
    chk1: "foldl (drain_step (MAX_SEARCH_RESULTS cfg)) (Map.empty, [], True) (new_events m2 m3) = (bases1, [], True)"
    and b1: "\<forall>j<N. bases1 j = Some (sn1 - of_nat (N - j) * B)"
    and st3: "steps_to m2 m3 (new_events m2 m3)"
    by (auto simp: B_def)
  note st = steps_to_trans[OF pre st3]
  then have B3: "m_batch_size m3 = m_batch_size m"
    and S3: "m_streams_batch_size m3 = m_streams_batch_size m" by (simp_all add: steps_to_def)
  obtain r m' where sl: "search_loop fuel E cfg w sn1 m3 = (r, m')"
    by (cases "search_loop fuel E cfg w sn1 m3")
  from search_loop_drain_check[OF sl N_def _ _ b1] rel B3 S3
  obtain bases' where chk2: "foldl (drain_step (MAX_SEARCH_RESULTS cfg)) (bases1, [], True)
      (new_events m3 m') = (bases', [], True)"
    by (auto simp: B_def)
  have run: "search fuel E cfg hdr target s w m = (r, m')"
    using pr sl by (auto simp: search_def Let_def m2_def N_def emit_def split: if_splits)
  from steps_to_new_events[OF steps_to_trans[OF st search_loop_steps[OF sl]]] cpre chk1 chk2
  show ?thesis
    by (simp add: drains_from_last_batch_def run)
qed

lemma unat_min: "unat (min a b) = min (unat a) (unat b)"
  by (simp add: min_def word_le_nat_alt)

subsection \<open>The new-work flag along a search\<close>

lemma flag_step_submits [simp]:
  "foldl flag_step s (map SubmitProof sols) = s"
  by (induction sols arbitrary: s) (auto simp: split_paired_all)

lemma flag_consumed_bound:
  "foldl flag_step (mk, ok) t = (mk', True) \<Longrightarrow>
     length (filter consumes t) \<le> (if mk then 0 else 1) \<and> ok"
proof (induction t arbitrary: mk ok)
  case Nil
  then show ?case by simp
next
  case (Cons e t)
  obtain mk1 ok1 where s1: "flag_step (mk, ok) e = (mk1, ok1)" by (cases "flag_step (mk, ok) e")
  from Cons.prems s1 have "foldl flag_step (mk1, ok1) t = (mk', True)" by simp
  from Cons.IH[OF this] have ih: "length (filter consumes t) \<le> (if mk1 then 0 else 1)" and ok1: ok1
    by simp_all
  from s1 ok1 ih show ?case
    by (cases e) (auto split: if_splits)
qed

lemma process_stream_flag:
  assumes run: "process_stream E cfg w i d0 sn m = (r, m')" and inv: "mk \<longrightarrow> d0"
  shows "\<exists>mk'. foldl flag_step (mk, True) (new_events m m') = (mk', True) \<and>
           (\<forall>d. r = Returned d \<longrightarrow> (mk' \<longrightarrow> d))"
proof (cases "cuda_status E (clock m)")
  case (Some what)
  from run show ?thesis unfolding process_stream_error[OF Some]
    by (auto simp: new_events_def)
next
  case None
  from run inv show ?thesis unfolding process_stream_eq[OF None]
    by (auto simp: new_events_def run_ethash_search_def emit_def split: if_splits)
qed

lemma search_streams_flag:
  assumes "search_streams E cfg w js d0 sn m = (r, m')" and "mk \<longrightarrow> d0"
  shows "\<exists>mk'. foldl flag_step (mk, True) (new_events m m') = (mk', True) \<and>
           (\<forall>d sn'. r = Returned (d, sn') \<longrightarrow> (mk' \<longrightarrow> d))"
  using assms
proof (induction js arbitrary: d0 sn m mk)
  case Nil
  then show ?case by (auto simp: new_events_def)
next
  case (Cons j js)
  obtain r1 m1 where ps: "process_stream E cfg w j d0 sn m = (r1, m1)"
    by (cases "process_stream E cfg w j d0 sn m")
  from process_stream_flag[OF ps Cons.prems(2)] obtain mk1 where
    f1: "foldl flag_step (mk, True) (new_events m m1) = (mk1, True)"
    and d1: "\<And>d. r1 = Returned d \<Longrightarrow> mk1 \<longrightarrow> d" by blast
  note st1 = process_stream_steps[OF ps]
  show ?case
  proof (cases r1)
    case (Returned d1)
    with Cons.prems(1) ps
    have rest: "search_streams E cfg w js d1 (sn + ucast (m_batch_size m1)) m1 = (r, m')" by simp
    from Cons.IH[OF rest d1[OF Returned]] obtain mk' where
      f2: "foldl flag_step (mk1, True) (new_events m1 m') = (mk', True)"
      and fin: "\<forall>d sn'. r = Returned (d, sn') \<longrightarrow> (mk' \<longrightarrow> d)" by blast
    from f1 f2 fin show ?thesis
      unfolding new_events_trans[OF st1 search_streams_steps[OF rest]] by simp
  next
    case (Raised e)
    with Cons.prems(1) ps have "r = Raised e" "m' = m1" by simp_all
    with f1 show ?thesis by auto
  next
    case OutOfFuel
    with process_stream_done[OF ps] show ?thesis by simp
  qed
qed

lemma search_loop_flag:
  assumes "search_loop fuel E cfg w sn m = (r, m')"
  shows "\<exists>mk'. foldl flag_step (False, True) (new_events m m') = (mk', True)"
  using assms
proof (induction fuel arbitrary: sn m)
  case 0
  then show ?case by (auto simp: new_events_def)
next
  case (Suc fuel)
  define N where "N = unat (s_numStreams cfg)"
  define nw where "nw = (m_new_work m \<or> kicked E (clock m))"
  define m1 where "m1 = tick (emit (ObsNewWork nw) (m\<lparr>m_new_work := False\<rparr>))"
  define d0 where "d0 = (if \<not> nw then paused E (clock m1) else True)"
  define m2 where "m2 = (if \<not> nw then tick (emit (ObsPaused (paused E (clock m1))) m1) else m1)"
  define pre where "pre = ObsNewWork nw # (if \<not> nw then [ObsPaused (paused E (clock m1))] else [])"
  have pre: "steps_to m m2 pre"
    by (simp add: pre_def m2_def m1_def steps_to_def emit_def tick_def)
  have cpre: "foldl flag_step (False, True) pre = (d0, True)"
    by (simp add: pre_def d0_def)
  obtain rs ms where ss: "search_streams E cfg w [0..<N] d0 sn m2 = (rs, ms)"
    by (cases "search_streams E cfg w [0..<N] d0 sn m2")
  note sts = search_streams_steps[OF ss]
  from search_streams_flag[OF ss, of d0] obtain mk1 where
    f1: "foldl flag_step (d0, True) (new_events m2 ms) = (mk1, True)"
    and fin: "\<And>d sn'. rs = Returned (d, sn') \<Longrightarrow> mk1 \<longrightarrow> d" by blast
  note st2 = steps_to_trans[OF pre sts]
  have f2: "foldl flag_step (False, True) (pre @ new_events m2 ms) = (mk1, True)"
    using cpre f1 by simp
  have loop: "search_loop (Suc fuel) E cfg w sn m =
      and_then (rs, ms) (\<lambda>(done1, start_nonce1) m3.
              let m4 = emit (UpdateHashRate (m_batch_size m3) (s_numStreams cfg)) m3;
                  (stop, m5) = obs_shouldStop E m4
              in if stop then (Returned (), store_new_work_false m5)
                 else if done1 then (Returned (), m5)
                 else search_loop fuel E cfg w start_nonce1 m5)"
    using ss
    by (auto simp: compare_exchange_new_work_def obs_paused_def Let_def N_def
        nw_def m1_def m2_def d0_def)
  from Suc.prems(1) have res: "and_then (rs, ms) (\<lambda>(done1, start_nonce1) m3.
              let m4 = emit (UpdateHashRate (m_batch_size m3) (s_numStreams cfg)) m3;
                  (stop, m5) = obs_shouldStop E m4
              in if stop then (Returned (), store_new_work_false m5)
                 else if done1 then (Returned (), m5)
                 else search_loop fuel E cfg w start_nonce1 m5) = (r, m')"
    unfolding loop .
  show ?case
  proof (cases rs)
    case (Returned x)
    obtain d1 sn1 where x: "x = (d1, sn1)" by (cases x)
    define m4 where "m4 = emit (UpdateHashRate (m_batch_size ms) (s_numStreams cfg)) ms"
    define stop where "stop = shouldStop E (clock m4)"
    define m5 where "m5 = tick (emit (ObsShouldStop stop) m4)"
    define post where "post = [UpdateHashRate (m_batch_size ms) (s_numStreams cfg), ObsShouldStop stop]"
    have post: "steps_to ms m5 post"
      by (simp add: post_def m5_def m4_def steps_to_def emit_def tick_def)
    note st5 = steps_to_trans[OF st2 post]
    have f5: "foldl flag_step (False, True) ((pre @ new_events m2 ms) @ post) = (mk1 \<or> stop, True)"
      using f2 by (simp add: post_def)
    show ?thesis
    proof (cases "stop \<or> d1")
      case True
      with res Returned x have "steps_to m5 m' []"
        by (auto simp: obs_shouldStop_def Let_def m4_def stop_def m5_def emit_def tick_def
            steps_to_def store_new_work_false_def split: if_splits)
      from steps_to_new_events[OF steps_to_trans[OF st5 this]] f5 show ?thesis by simp
    next
      case False
      with res Returned x have rec: "search_loop fuel E cfg w sn1 m5 = (r, m')"
        by (auto simp: obs_shouldStop_def Let_def m4_def stop_def m5_def emit_def tick_def
            split: if_splits)
      from fin[OF Returned[unfolded x]] False have "\<not> (mk1 \<or> stop)" by simp
      with f5 have f5': "foldl flag_step (False, True) ((pre @ new_events m2 ms) @ post) = (False, True)"
        by simp
      from Suc.IH[OF rec] obtain mk' where
        "foldl flag_step (False, True) (new_events m5 m') = (mk', True)" by blast
      with f5' steps_to_new_events[OF steps_to_trans[OF st5 search_loop_steps[OF rec]]]
      show ?thesis by simp
    qed
  next
    case (Raised e)
    with res have "m' = ms" by simp
    with steps_to_new_events[OF st2] f2 show ?thesis by simp
  next
    case OutOfFuel
    with search_streams_issued[OF ss] show ?thesis by blast
  qed
qed

lemma prime_streams_flag:
  assumes "prime_streams cfg js sn m = (sn', m')"
  shows "foldl flag_step (False, True) (new_events m m') = (False, True) \<and>
         steps_to m m' (new_events m m')"
  using assms
proof (induction js arbitrary: sn m)
  case Nil
  then show ?case by (auto simp: new_events_def steps_to_def)
next
  case (Cons j js)
  define ev where "ev = RunEthashSearch (s_gridSize cfg) (s_blockSize cfg) j sn (s_parallelHash cfg)"
  define m2 where "m2 = run_ethash_search cfg j sn
      (m\<lparr>m_search_buf := (m_search_buf m)(j := (m_search_buf m j)\<lparr>count := 0\<rparr>)\<rparr>)"
  have st: "steps_to m m2 [ev]"
    by (simp add: m2_def ev_def steps_to_def run_ethash_search_def emit_def)
  from Cons.prems have rest: "prime_streams cfg js (sn + ucast (m_batch_size m2)) m2 = (sn', m')"
    by (simp add: Let_def m2_def[symmetric])
  from Cons.IH[OF rest] have f: "foldl flag_step (False, True) (new_events m2 m') = (False, True)"
    and st': "steps_to m2 m' (new_events m2 m')" by simp_all
  from steps_to_new_events[OF steps_to_trans[OF st st']] f steps_to_trans[OF st st']
  show ?case by (auto simp: ev_def)
qed

lemma search_flag:
  "\<exists>mk'. foldl flag_step (False, True) (new_events m (snd (search fuel E cfg hdr target s w m)))
            = (mk', True)"
proof -
  define N where "N = unat (s_numStreams cfg)"
  define pre where "pre = SetHeader hdr # (if m_current_target m \<noteq> target then [SetTarget target] else [])"
  define m2 where "m2 = (if m_current_target m \<noteq> target
                then (emit (SetTarget target) (emit (SetHeader hdr) m))\<lparr>m_current_target := target\<rparr>
                else emit (SetHeader hdr) m)"
  have pre: "steps_to m m2 pre"
    by (simp add: pre_def m2_def steps_to_def emit_def)
  have cpre: "foldl flag_step (False, True) pre = (False, True)"
    by (simp add: pre_def)
  obtain sn1 m3 where pr: "prime_streams cfg [0..<N] s m2 = (sn1, m3)"
    by (cases "prime_streams cfg [0..<N] s m2")
  from prime_streams_flag[OF pr]
  have f1: "foldl flag_step (False, True) (new_events m2 m3) = (False, True)"
    and st3: "steps_to m2 m3 (new_events m2 m3)" by simp_all
  note st = steps_to_trans[OF pre st3]
  obtain r m' where sl: "search_loop fuel E cfg w sn1 m3 = (r, m')"
    by (cases "search_loop fuel E cfg w sn1 m3")
  from search_loop_flag[OF sl] obtain mk' where
    f2: "foldl flag_step (False, True) (new_events m3 m') = (mk', True)" by blast
  have run: "search fuel E cfg hdr target s w m = (r, m')"
    using pr sl by (auto simp: search_def Let_def m2_def N_def emit_def split: if_splits)
  from steps_to_new_events[OF steps_to_trans[OF st search_loop_steps[OF sl]]] cpre f1 f2
  show ?thesis
    by (simp add: run)
qed

subsection \<open>The stages of init\<close>

lemma wait_dag_load_shape:
  "wait_dag_load fuel E m = (r, m1) \<Longrightarrow>
     (r = OutOfFuel \<or> r = Returned ()) \<and> same_members m m1 \<and>
     (\<exists>w. trace m1 = trace m @ w \<and> list_all barrier_event w)"
proof (induction fuel arbitrary: m)
  case 0
  then show ?case by (auto simp: same_members_def)
next
  case (Suc fuel)
  define idx where "idx = dagLoadIndex E (clock m)"
  define ma where "ma = emit TimedWait (tick (emit (ObsDagLoadIndex idx) m))"
  show ?case
  proof (cases "idx < m_index m")
    case True
    with Suc.prems have "wait_dag_load fuel E ma = (r, m1)"
      by (simp add: Let_def idx_def ma_def)
    from Suc.IH[OF this] obtain w where "r = OutOfFuel \<or> r = Returned ()" "same_members ma m1"
      "trace m1 = trace ma @ w" "list_all barrier_event w" by blast
    then show ?thesis
      by (intro conjI exI[of _ "[ObsDagLoadIndex idx, TimedWait] @ w"])
         (auto simp: ma_def same_members_def emit_def tick_def)
  next
    case False
    with Suc.prems show ?thesis
      by (auto simp: Let_def idx_def same_members_def emit_def tick_def
          intro!: exI[of _ "[ObsDagLoadIndex (dagLoadIndex E (clock m))]"])
  qed
qed

lemma wait_dag_load_passes:
  "\<exists>k<fuel. m_index m \<le> dagLoadIndex E (clock m + k) \<Longrightarrow> fst (wait_dag_load fuel E m) = Returned ()"
proof (induction fuel arbitrary: m)
  case 0
  then show ?case by simp
next
  case (Suc fuel)
  then obtain k where k: "k < Suc fuel" "m_index m \<le> dagLoadIndex E (clock m + k)" by blast
  define ma where "ma = emit TimedWait (tick (emit (ObsDagLoadIndex (dagLoadIndex E (clock m))) m))"
  show ?case
  proof (cases "dagLoadIndex E (clock m) < m_index m")
    case True
    with k have "k \<noteq> 0" by (cases k) auto
    then obtain k' where k': "k = Suc k'" by (cases k) auto
    with k have "\<exists>j<fuel. m_index ma \<le> dagLoadIndex E (clock ma + j)"
      by (intro exI[of _ k']) (simp add: ma_def emit_def tick_def)
    from Suc.IH[OF this] True show ?thesis
      by (simp add: Let_def ma_def)
  next
    case False
    then show ?thesis by (simp add: Let_def)
  qed
qed

lemma wait_dag_load_stuck:
  "\<forall>t. dagLoadIndex E t < m_index m \<Longrightarrow> fst (wait_dag_load fuel E m) = OutOfFuel"
proof (induction fuel arbitrary: m)
  case 0
  show ?case by simp
next
  case (Suc fuel)
  define ma where "ma = emit TimedWait (tick (emit (ObsDagLoadIndex (dagLoadIndex E (clock m))) m))"
  from Suc.prems have "\<forall>t. dagLoadIndex E t < m_index ma"
    by (simp add: ma_def emit_def tick_def)
  from Suc.IH[OF this] Suc.prems show ?case
    by (simp add: Let_def ma_def)
qed

lemma init_after_barrier:
  assumes "barrier_passes fuel E cfg m" and "\<forall>t. \<not> shouldStop E t"
  shows "\<exists>m1 w. init fuel E cfg ep m = init_device E cfg ep m1 \<and> same_members m m1 \<and>
           trace m1 = trace m @ w \<and> list_all barrier_event w"
proof (cases "s_dagLoadMode cfg = DAG_LOAD_MODE_SEQUENTIAL cfg")
  case False
  then show ?thesis
    by (intro exI[of _ m] exI[of _ "[]"]) (simp add: init_def same_members_def)
next
  case True
  with assms(1) have "\<exists>k<fuel. m_index m \<le> dagLoadIndex E (clock m + k)"
    by (simp add: barrier_passes_def)
  from wait_dag_load_passes[OF this] obtain ma where wa: "wait_dag_load fuel E m = (Returned (), ma)"
    by (cases "wait_dag_load fuel E m") auto
  from wait_dag_load_shape[OF wa] obtain w where sm: "same_members m ma"
    and w: "trace ma = trace m @ w" "list_all barrier_event w" by blast
  define m1 where "m1 = tick (emit (ObsShouldStop False) ma)"
  from True wa assms(2) have "init fuel E cfg ep m = init_device E cfg ep m1"
    by (simp add: init_def obs_shouldStop_def m1_def)
  moreover from sm have "same_members m m1"
    by (simp add: same_members_def m1_def emit_def tick_def)
  moreover from w have "trace m1 = trace m @ (w @ [ObsShouldStop False])" "list_all barrier_event (w @ [ObsShouldStop False])"
    by (simp_all add: m1_def emit_def tick_def)
  ultimately show ?thesis by blast
qed

lemma barrier_event_not_allocates: "barrier_event e \<Longrightarrow> \<not> allocates e"
  by (cases e) simp_all

lemma selected_device_same: "same_members m m1 \<Longrightarrow> selected_device cfg m1 n = selected_device cfg m n"
  by (simp add: same_members_def selected_device_def configured_device_def)

lemma init_device_insufficient:
  fixes n :: int and E :: env and ep :: int and cfg :: statics and m :: miner
  defines "ctx \<equiv> get_global_epoch_context E ep"
  defines "required \<equiv> get_full_dataset_size E (full_dataset_num_items ctx)"
  defines "dev \<equiv> selected_device cfg m (word_of_int n)"
  assumes devs: "\<forall>t. cudaGetDeviceCount E t = (cudaSuccess, n)" and n0: "(word_of_int n :: 32 word) \<noteq> 0"
    and ok: "\<forall>t. cuda_status E t = None"
    and rebuild: "word_of_int (full_dataset_num_items ctx) \<noteq> m_dag_size m \<or> m_dag m = 0"
    and small: "totalGlobalMem (deviceProps E dev) < required"
  shows "init_device E cfg ep m =
           (Returned False,
            m\<lparr>m_device_num := dev, clock := clock m + 3,
              trace := trace m @
                [Log (LogInitialising (m_index m)), ObsDeviceCount cudaSuccess n,
                 CudaGetDeviceProperties dev,
                 Log (LogUsingDevice (name (deviceProps E dev)) (major (deviceProps E dev))
                        (minor (deviceProps E dev))),
                 CudaSetDevice dev, Log LogSetDevice,
                 Log (LogInsufficientMemory (name (deviceProps E dev))
                        (totalGlobalMem (deviceProps E dev)) required)]\<rparr>)"
  using devs n0 ok rebuild small
  unfolding ctx_def required_def dev_def
  by (auto simp: init_device_def getNumDevices_def reset_for_dag_def cuda_safe_call_def
      selected_device_def Let_def emit_def tick_def)

lemma create_mining_buffers_ok:
  assumes "\<forall>t. cuda_status E t = None"
  shows "create_mining_buffers E js m =
           (Returned (),
            m\<lparr>clock := clock m + 2 * length js,
              trace := trace m @ concat (map (\<lambda>i. [CudaMallocHost i, CudaStreamCreateWithFlags i]) js)\<rparr>)"
proof (induction js arbitrary: m)
  case Nil
  show ?case by simp
next
  case (Cons j js)
  show ?case
    using assms by (simp add: Cons.IH cuda_safe_call_def emit_def tick_def)
qed

lemma last_device_selected:
  fixes numDevices device :: "32 word"
  assumes "numDevices \<noteq> 0" and "numDevices \<le> device"
  shows "\<not> device < numDevices - 1"
proof -
  from assms(1) have "unat (numDevices - 1) = unat numDevices - 1"
    by (simp add: unat_minus_one)
  moreover from assms(2) have "unat numDevices \<le> unat device"
    by (simp add: word_le_nat_alt)
  ultimately show ?thesis
    by (simp add: word_less_nat_alt)
qed

lemma init_device_absent:
  assumes "\<forall>t. cudaGetDeviceCount E t = (cudaSuccess, n)" and "(word_of_int n :: 32 word) = 0"
  shows "init_device E cfg ep m =
           (Returned False,
            m\<lparr>clock := Suc (clock m),
              trace := trace m @ [Log (LogInitialising (m_index m)), ObsDeviceCount cudaSuccess n]\<rparr>)"
  using assms
  by (simp add: init_device_def getNumDevices_def Let_def emit_def tick_def)

lemma grows_refl: "grows m m"
  by (simp add: grows_def)

lemma grows_trans: "grows m m1 \<Longrightarrow> grows m1 m2 \<Longrightarrow> grows m m2"
  by (auto simp: grows_def)

lemma getNumDevices_ok:
  assumes "\<forall>t. cudaGetDeviceCount E t = (cudaSuccess, n)"
  shows "getNumDevices E m = (Returned (word_of_int n), tick (emit (ObsDeviceCount cudaSuccess n) m))"
  using assms by (simp add: getNumDevices_def Let_def)

lemma cuda_safe_call_ok:
  assumes "\<forall>t. cuda_status E t = None"
  shows "cuda_safe_call E call m = (Returned (), tick (emit call m))"
  using assms by (simp add: cuda_safe_call_def)

lemma cudaMalloc_ok:
  assumes "\<forall>t. cuda_status E t = None"
  shows "cudaMalloc E kind bytes m = (Returned (malloc_result E (clock m)), tick (emit (CudaMalloc kind bytes) m))"
  using assms by (simp add: cudaMalloc_def cuda_safe_call_def)

lemma reset_for_dag_ok:
  assumes ok: "\<forall>t. cuda_status E t = None"
    and enough: "(word_of_int dagNumItems = m_dag_size m \<and> m_dag m \<noteq> 0) \<or>
                 \<not> totalGlobalMem device_props < dagSize"
  shows "fst (reset_for_dag E cfg dev device_props dagNumItems dagSize m) = Returned True \<and>
         grows m (snd (reset_for_dag E cfg dev device_props dagNumItems dagSize m))"
  using enough
  by (auto simp: reset_for_dag_def cuda_safe_call_ok[OF ok] grows_def emit_def tick_def)

lemma load_dag_ok:
  assumes ok: "\<forall>t. cuda_status E t = None"
  shows "fst (load_dag E cfg dev device_props context m) = Returned True \<and>
         grows m (snd (load_dag E cfg dev device_props context m))"
  by (simp add: load_dag_def cuda_safe_call_ok[OF ok] cudaMalloc_ok[OF ok]
      create_mining_buffers_ok[OF ok] grows_def Let_def emit_def tick_def)

lemma init_device_succeeds:
  fixes n :: int and E :: env and ep :: int and cfg :: statics and m :: miner
  defines "ctx \<equiv> get_global_epoch_context E ep"
  defines "required \<equiv> get_full_dataset_size E (full_dataset_num_items ctx)"
  defines "dev \<equiv> selected_device cfg m (word_of_int n)"
  assumes devs: "\<forall>t. cudaGetDeviceCount E t = (cudaSuccess, n)" and n0: "(word_of_int n :: 32 word) \<noteq> 0"
    and ok: "\<forall>t. cuda_status E t = None"
    and enough: "(word_of_int (full_dataset_num_items ctx) = m_dag_size m \<and> m_dag m \<noteq> 0) \<or>
                 \<not> totalGlobalMem (deviceProps E dev) < required"
  shows "fst (init_device E cfg ep m) = Returned True \<and>
         m_device_num (snd (init_device E cfg ep m)) = dev \<and>
         (\<exists>v. trace (snd (init_device E cfg ep m)) =
                trace m @ [Log (LogInitialising (m_index m)), ObsDeviceCount cudaSuccess n,
                           CudaGetDeviceProperties dev] @ v)"
proof -
  define m5 where "m5 = m\<lparr>m_device_num := dev, clock := Suc (Suc (Suc (clock m))),
              trace := trace m @
                [Log (LogInitialising (m_index m)), ObsDeviceCount cudaSuccess n,
                 CudaGetDeviceProperties dev,
                 Log (LogUsingDevice (name (deviceProps E dev)) (major (deviceProps E dev))
                        (minor (deviceProps E dev))),
                 CudaSetDevice dev, Log LogSetDevice]\<rparr>"
  have sel: "select_device (configured_device cfg m) (word_of_int n) = dev"
    by (simp add: dev_def selected_device_def)
  define rs where "rs = reset_for_dag E cfg dev (deviceProps E dev) (full_dataset_num_items ctx) required m5"
  have eq: "init_device E cfg ep m =
      and_then rs (\<lambda>proceed m6. if \<not> proceed then (Returned False, m6)
                            else load_dag E cfg dev (deviceProps E dev) ctx m6)"
    using n0
    by (simp add: init_device_def getNumDevices_ok[OF devs] cuda_safe_call_ok[OF ok] Let_def
        rs_def m5_def sel ctx_def[symmetric] required_def[symmetric] emit_def tick_def
        cong: if_cong)
  have enough5: "(word_of_int (full_dataset_num_items ctx) = m_dag_size m5 \<and> m_dag m5 \<noteq> 0) \<or>
                 \<not> totalGlobalMem (deviceProps E dev) < required"
    using enough by (simp add: m5_def)
  obtain r6 m6 where rs_eq: "rs = (r6, m6)" by (cases rs)
  from reset_for_dag_ok[OF ok enough5, of cfg dev] have r6: "r6 = Returned True" and g6: "grows m5 m6"
    by (simp_all add: rs_def[symmetric] rs_eq)
  from load_dag_ok[OF ok, of cfg dev "deviceProps E dev" ctx m6]
  have l: "fst (load_dag E cfg dev (deviceProps E dev) ctx m6) = Returned True"
    and gl: "grows m6 (snd (load_dag E cfg dev (deviceProps E dev) ctx m6))" by simp_all
  from grows_trans[OF g6 gl] l show ?thesis
    unfolding eq rs_eq r6 by (auto simp: grows_def m5_def)
qed

lemma barrier_event_not_rebuilds: "barrier_event e \<Longrightarrow> \<not> rebuilds e"
  by (cases e) simp_all

lemma create_mining_buffers_shape:
  "create_mining_buffers E js m = (r, m') \<Longrightarrow> same_members m m' \<and> (\<exists>v. trace m' = trace m @ v)"
proof (induction js arbitrary: m)
  case Nil
  then show ?case by (auto simp: same_members_def)
next
  case (Cons j js)
  show ?case
  proof (cases "cuda_status E (clock m)")
    case (Some what)
    with Cons.prems show ?thesis
      by (auto simp: cuda_safe_call_def emit_def tick_def same_members_def)
  next
    case None
    define m1 where "m1 = tick (emit (CudaMallocHost j) m)"
    show ?thesis
    proof (cases "cuda_status E (clock m1)")
      case (Some what)
      with None Cons.prems show ?thesis
        by (auto simp: cuda_safe_call_def emit_def tick_def m1_def same_members_def)
    next
      case n2: None
      define m2 where "m2 = tick (emit (CudaStreamCreateWithFlags j) m1)"
      from None n2 Cons.prems have "create_mining_buffers E js m2 = (r, m')"
        by (simp add: cuda_safe_call_def m1_def m2_def)
      from Cons.IH[OF this] show ?thesis
        by (auto simp: m2_def m1_def emit_def tick_def same_members_def)
    qed
  qed
qed

lemma reset_for_dag_shape:
  "reset_for_dag E cfg dev props dagNumItems dagSize m = (r, m') \<Longrightarrow>
     (\<exists>v. trace m' = trace m @ v) \<and> m_device_num m' = m_device_num m"
  by (auto simp: reset_for_dag_def cuda_safe_call_def and_then_def emit_def tick_def
      split: if_splits option.splits)

lemma reset_for_dag_reuse:
  "word_of_int dagNumItems = m_dag_size m \<Longrightarrow> m_dag m \<noteq> 0 \<Longrightarrow>
     reset_for_dag E cfg dev props dagNumItems dagSize m = (Returned True, m)"
  by (simp add: reset_for_dag_def)

lemma load_dag_reuse:
  assumes "load_dag E cfg dev props ctx m = (r, m')"
    and "word_of_int (full_dataset_num_items ctx) = m_dag_size m" and "m_dag m \<noteq> 0"
  shows "\<exists>v. trace m' = trace m @ v \<and> list_all (\<lambda>e. \<not> rebuilds e) v \<and> m_dag m' = m_dag m"
  using assms
  by (auto simp: load_dag_def cudaMalloc_def cuda_safe_call_def and_then_def Let_def emit_def tick_def
      split: if_splits option.splits)

lemma load_dag_copies:
  assumes "load_dag E cfg dev props ctx m = (Returned True, m')"
  shows "\<exists>v. trace m' = trace m @ v \<and>
           CudaMemcpy (m_light m' dev) (light_cache ctx)
             (get_light_cache_size E (light_cache_num_items ctx)) \<in> set v \<and>
           m_device_num m' = m_device_num m"
  using assms
  by (auto simp: load_dag_def cudaMalloc_def cuda_safe_call_def and_then_def Let_def emit_def tick_def
      same_members_def
      split: if_splits option.splits prod.splits outcome.splits
      dest!: create_mining_buffers_shape)

lemma init_device_copies:
  assumes "init_device E cfg ep m = (Returned True, m')"
  shows "\<exists>v. trace m' = trace m @ v \<and>
           CudaMemcpy (m_light m' (m_device_num m')) (light_cache (get_global_epoch_context E ep))
             (get_light_cache_size E (light_cache_num_items (get_global_epoch_context E ep))) \<in> set v"
proof -
  define device where "device = configured_device cfg m"
  define m0 where "m0 = emit (Log (LogInitialising (m_index m))) m"
  obtain rn m1 where gn: "getNumDevices E m0 = (rn, m1)" by (cases "getNumDevices E m0")
  then have t1: "\<exists>v. trace m1 = trace m @ v"
    by (auto simp: getNumDevices_def m0_def Let_def emit_def tick_def
        split: prod.splits cudaError.splits if_splits)
  from assms gn obtain numDevices where rn: "rn = Returned numDevices"
    by (cases rn) (auto simp: init_device_def Let_def m0_def)
  define dev where "dev = select_device device numDevices"
  define m2 where "m2 = m1\<lparr>m_device_num := dev\<rparr>"
  define ctx where "ctx = get_global_epoch_context E ep"
  from assms gn rn have n0: "numDevices \<noteq> 0"
    by (auto simp: init_device_def Let_def m0_def split: if_splits)
  with assms gn rn have main: "and_then (cuda_safe_call E (CudaGetDeviceProperties dev) m2) (\<lambda>_ m3.
        and_then (cuda_safe_call E (CudaSetDevice dev)
                    (emit (Log (LogUsingDevice (name (deviceProps E dev)) (major (deviceProps E dev))
                                       (minor (deviceProps E dev)))) m3)) (\<lambda>_ m5.
          and_then (reset_for_dag E cfg dev (deviceProps E dev) (full_dataset_num_items ctx)
                      (get_full_dataset_size E (full_dataset_num_items ctx))
                      (emit (Log LogSetDevice) m5))
            (\<lambda>proceed m6. if \<not> proceed then (Returned False, m6)
                            else load_dag E cfg dev (deviceProps E dev) ctx m6))) = (Returned True, m')"
    by (simp add: init_device_def Let_def m0_def dev_def m2_def ctx_def device_def cong: if_cong)
  define m5 where "m5 = emit (Log LogSetDevice) (tick (emit (CudaSetDevice dev)
      (emit (Log (LogUsingDevice (name (deviceProps E dev)) (major (deviceProps E dev))
                                       (minor (deviceProps E dev))))
         (tick (emit (CudaGetDeviceProperties dev) m2)))))"
  have t5: "\<exists>v. trace m5 = trace m2 @ v" and d5: "m_device_num m5 = dev"
    by (simp_all add: m5_def m2_def emit_def tick_def)
  from main have c1: "cuda_status E (clock m2) = None"
    by (cases "cuda_status E (clock m2)") (auto simp: cuda_safe_call_def)
  with main have c2: "cuda_status E (Suc (clock m2)) = None"
    by (cases "cuda_status E (Suc (clock m2))") (auto simp: cuda_safe_call_def emit_def tick_def)
  from main c1 c2 have main2: "and_then (reset_for_dag E cfg dev (deviceProps E dev) (full_dataset_num_items ctx)
                      (get_full_dataset_size E (full_dataset_num_items ctx)) m5)
            (\<lambda>proceed m6. if \<not> proceed then (Returned False, m6)
                            else load_dag E cfg dev (deviceProps E dev) ctx m6) = (Returned True, m')"
    by (simp add: cuda_safe_call_def m5_def emit_def tick_def)
  obtain r6 m6 where rs0: "reset_for_dag E cfg dev (deviceProps E dev) (full_dataset_num_items ctx)
                      (get_full_dataset_size E (full_dataset_num_items ctx)) m5 = (r6, m6)"
    by (cases "reset_for_dag E cfg dev (deviceProps E dev) (full_dataset_num_items ctx)
                      (get_full_dataset_size E (full_dataset_num_items ctx)) m5")
  with main2 have r6: "r6 = Returned True"
    by (cases r6) (auto split: if_splits)
  note rs = rs0[unfolded r6]
  from main2 rs have ld: "load_dag E cfg dev (deviceProps E dev) ctx m6 = (Returned True, m')"
    by simp
  from reset_for_dag_shape[OF rs] d5 have t6: "\<exists>v. trace m6 = trace m5 @ v" and d6: "m_device_num m6 = dev"
    by simp_all
  from load_dag_copies[OF ld] d6 obtain v where
    v: "trace m' = trace m6 @ v" "CudaMemcpy (m_light m' dev) (light_cache ctx)
             (get_light_cache_size E (light_cache_num_items ctx)) \<in> set v" "m_device_num m' = dev"
    by auto
  from t1 t5 t6 v show ?thesis
    by (auto simp: m2_def ctx_def)
qed

lemma init_device_reuse:
  assumes "init_device E cfg ep m = (r, m')"
    and "word_of_int (full_dataset_num_items (get_global_epoch_context E ep)) = m_dag_size m"
    and "m_dag m \<noteq> 0"
  shows "\<exists>v. trace m' = trace m @ v \<and> list_all (\<lambda>e. \<not> rebuilds e) v \<and> m_dag m' = m_dag m"
proof -
  define device where "device = configured_device cfg m"
  define ctx where "ctx = get_global_epoch_context E ep"
  define m0 where "m0 = emit (Log (LogInitialising (m_index m))) m"
  obtain rn m1 where gn: "getNumDevices E m0 = (rn, m1)" by (cases "getNumDevices E m0")
  then have t1: "\<exists>v. trace m1 = trace m @ v \<and> list_all (\<lambda>e. \<not> rebuilds e) v"
    and f1: "m_dag m1 = m_dag m" "m_dag_size m1 = m_dag_size m"
    by (auto simp: getNumDevices_def m0_def Let_def emit_def tick_def
        split: prod.splits cudaError.splits if_splits)
  show ?thesis
  proof (cases rn)
    case (Returned numDevices)
    define dev where "dev = select_device device numDevices"
    define m2 where "m2 = m1\<lparr>m_device_num := dev\<rparr>"
    show ?thesis
    proof (cases "numDevices = 0")
      case True
      with assms(1) gn Returned have "r = Returned False" "m' = m1"
        by (auto simp: init_device_def Let_def m0_def)
      with t1 f1 show ?thesis by auto
    next
      case False
      with assms(1) gn Returned have main: "and_then (cuda_safe_call E (CudaGetDeviceProperties dev) m2) (\<lambda>_ m3.
        and_then (cuda_safe_call E (CudaSetDevice dev)
                    (emit (Log (LogUsingDevice (name (deviceProps E dev)) (major (deviceProps E dev))
                                       (minor (deviceProps E dev)))) m3)) (\<lambda>_ m5.
          and_then (reset_for_dag E cfg dev (deviceProps E dev) (full_dataset_num_items ctx)
                      (get_full_dataset_size E (full_dataset_num_items ctx))
                      (emit (Log LogSetDevice) m5))
            (\<lambda>proceed m6. if \<not> proceed then (Returned False, m6)
                            else load_dag E cfg dev (deviceProps E dev) ctx m6))) = (r, m')"
        by (simp add: init_device_def Let_def m0_def dev_def m2_def ctx_def device_def cong: if_cong)
      define m3 where "m3 = tick (emit (CudaGetDeviceProperties dev) m2)"
      define m4 where "m4 = tick (emit (CudaSetDevice dev)
          (emit (Log (LogUsingDevice (name (deviceProps E dev)) (major (deviceProps E dev))
                                       (minor (deviceProps E dev)))) m3))"
      define m5 where "m5 = emit (Log LogSetDevice) m4"
      have "(\<exists>v. trace m' = trace m2 @ v \<and> list_all (\<lambda>e. \<not> rebuilds e) v \<and> m_dag m' = m_dag m2) \<or>
            (\<exists>m5. (\<exists>v. trace m5 = trace m2 @ v \<and> list_all (\<lambda>e. \<not> rebuilds e) v) \<and>
                   m_dag m5 = m_dag m2 \<and> m_dag_size m5 = m_dag_size m2 \<and>
                   and_then (reset_for_dag E cfg dev (deviceProps E dev) (full_dataset_num_items ctx)
                      (get_full_dataset_size E (full_dataset_num_items ctx)) m5)
                     (\<lambda>proceed m6. if \<not> proceed then (Returned False, m6)
                            else load_dag E cfg dev (deviceProps E dev) ctx m6) = (r, m'))"
      proof (cases "cuda_status E (clock m2)")
        case (Some what)
        with main have "m' = m3" by (auto simp: cuda_safe_call_def m3_def)
        then show ?thesis by (intro disjI1) (simp add: m3_def emit_def tick_def)
      next
        case None
        show ?thesis
        proof (cases "cuda_status E (Suc (clock m2))")
          case (Some what)
          with None main have "m' = m4"
            by (auto simp: cuda_safe_call_def m3_def m4_def emit_def tick_def)
          then show ?thesis by (intro disjI1) (simp add: m3_def m4_def emit_def tick_def)
        next
          case n2: None
          with None main have "and_then (reset_for_dag E cfg dev (deviceProps E dev) (full_dataset_num_items ctx)
                      (get_full_dataset_size E (full_dataset_num_items ctx)) m5)
                     (\<lambda>proceed m6. if \<not> proceed then (Returned False, m6)
                            else load_dag E cfg dev (deviceProps E dev) ctx m6) = (r, m')"
            by (simp add: cuda_safe_call_def m3_def m4_def m5_def emit_def tick_def)
          moreover have "\<exists>v. trace m5 = trace m2 @ v \<and> list_all (\<lambda>e. \<not> rebuilds e) v"
            by (simp add: m3_def m4_def m5_def emit_def tick_def)
          moreover have "m_dag m5 = m_dag m2" "m_dag_size m5 = m_dag_size m2"
            by (simp_all add: m3_def m4_def m5_def emit_def tick_def)
          ultimately show ?thesis by blast
        qed
      qed
      then show ?thesis
      proof
        assume "\<exists>v. trace m' = trace m2 @ v \<and> list_all (\<lambda>e. \<not> rebuilds e) v \<and> m_dag m' = m_dag m2"
        with t1 f1 show ?thesis by (auto simp: m2_def)
      next
        assume "\<exists>m5. (\<exists>v. trace m5 = trace m2 @ v \<and> list_all (\<lambda>e. \<not> rebuilds e) v) \<and>
                   m_dag m5 = m_dag m2 \<and> m_dag_size m5 = m_dag_size m2 \<and>
                   and_then (reset_for_dag E cfg dev (deviceProps E dev) (full_dataset_num_items ctx)
                      (get_full_dataset_size E (full_dataset_num_items ctx)) m5)
                     (\<lambda>proceed m6. if \<not> proceed then (Returned False, m6)
                            else load_dag E cfg dev (deviceProps E dev) ctx m6) = (r, m')"
        then obtain m5 v5 where t5: "trace m5 = trace m2 @ v5" "list_all (\<lambda>e. \<not> rebuilds e) v5"
          and f5: "m_dag m5 = m_dag m2" "m_dag_size m5 = m_dag_size m2"
          and rest: "and_then (reset_for_dag E cfg dev (deviceProps E dev) (full_dataset_num_items ctx)
                      (get_full_dataset_size E (full_dataset_num_items ctx)) m5)
                     (\<lambda>proceed m6. if \<not> proceed then (Returned False, m6)
                            else load_dag E cfg dev (deviceProps E dev) ctx m6) = (r, m')"
          by blast
        from f5 f1 assms(2,3) have reuse5: "word_of_int (full_dataset_num_items ctx) = m_dag_size m5" "m_dag m5 \<noteq> 0"
          by (simp_all add: m2_def ctx_def)
        from rest have "load_dag E cfg dev (deviceProps E dev) ctx m5 = (r, m')"
          by (simp add: reset_for_dag_reuse[OF reuse5])
        from load_dag_reuse[OF this reuse5] obtain v where
          "trace m' = trace m5 @ v" "list_all (\<lambda>e. \<not> rebuilds e) v" "m_dag m' = m_dag m5" by blast
        with t1 f1 t5 f5 show ?thesis by (auto simp: m2_def)
      qed
    qed
  next
    case (Raised e)
    with assms(1) gn have "r = Raised e" "m' = m1"
      by (auto simp: init_device_def Let_def m0_def)
    with t1 f1 show ?thesis by auto
  next
    case OutOfFuel
    with assms(1) gn have "r = OutOfFuel" "m' = m1"
      by (auto simp: init_device_def Let_def m0_def)
    with t1 f1 show ?thesis by auto
  qed
qed

lemma init_shape:
  "\<exists>m1 w. same_members m m1 \<and> trace m1 = trace m @ w \<and> list_all barrier_event w \<and>
     (init fuel E cfg ep m = init_device E cfg ep m1 \<or>
      init fuel E cfg ep m = (OutOfFuel, m1) \<or>
      init fuel E cfg ep m = (Returned False, emit (Log LogExiting) m1))"
proof (cases "s_dagLoadMode cfg = DAG_LOAD_MODE_SEQUENTIAL cfg")
  case False
  then show ?thesis
    by (intro exI[of _ m] exI[of _ "[]"]) (simp add: init_def same_members_def)
next
  case True
  obtain rw ma where wa: "wait_dag_load fuel E m = (rw, ma)" by (cases "wait_dag_load fuel E m")
  from wait_dag_load_shape[OF wa] obtain w where rw: "rw = OutOfFuel \<or> rw = Returned ()"
    and sm: "same_members m ma" and w: "trace ma = trace m @ w" "list_all barrier_event w" by blast
  from rw show ?thesis
  proof
    assume "rw = OutOfFuel"
    with True wa have "init fuel E cfg ep m = (OutOfFuel, ma)" by (simp add: init_def)
    with sm w show ?thesis by blast
  next
    assume r: "rw = Returned ()"
    define m1 where "m1 = tick (emit (ObsShouldStop (shouldStop E (clock ma))) ma)"
    from True wa r have "init fuel E cfg ep m =
        (if shouldStop E (clock ma) then (Returned False, emit (Log LogExiting) m1)
         else init_device E cfg ep m1)"
      by (simp add: init_def obs_shouldStop_def m1_def)
    moreover from sm have "same_members m m1"
      by (simp add: same_members_def m1_def emit_def tick_def)
    moreover from w have "trace m1 = trace m @ (w @ [ObsShouldStop (shouldStop E (clock ma))])"
      "list_all barrier_event (w @ [ObsShouldStop (shouldStop E (clock ma))])"
      by (simp_all add: m1_def emit_def tick_def)
    ultimately show ?thesis
      by (intro exI[of _ m1] exI[of _ "w @ [ObsShouldStop (shouldStop E (clock ma))]"]) simp
  qed
qed

subsection \<open>The targets along workLoop\<close>

lemma quiet_refl [simp]: "quiet t t"
  by (simp add: quiet_def)

lemma quiet_trans: "quiet t u \<Longrightarrow> quiet u v \<Longrightarrow> quiet t v"
  by (auto simp: quiet_def)

lemma trace_tick [simp]: "trace (tick m) = trace m"
  by (simp add: tick_def)

lemma quiet_emit: "\<not> job_or_target e \<Longrightarrow> quiet t (trace m) \<Longrightarrow> quiet t (trace (emit e m))"
  by (auto simp: quiet_def emit_def)

lemma quiet_and_then:
  assumes "quiet t (trace (snd f))" and "\<And>a m1. quiet (trace m1) (trace (snd (g a m1)))"
  shows "quiet t (trace (snd (and_then f g)))"
proof (cases f)
  case (Pair r m)
  with assms(1) have q: "quiet t (trace m)" by simp
  show ?thesis
  proof (cases r)
    case (Returned a)
    with Pair quiet_trans[OF q assms(2)[of m a]] show ?thesis by simp
  qed (use Pair q in simp_all)
qed

lemma quiet_safe_call:
  "\<not> job_or_target call \<Longrightarrow> quiet t (trace m) \<Longrightarrow> quiet t (trace (snd (cuda_safe_call E call m)))"
  by (auto simp: cuda_safe_call_def intro!: quiet_emit split: option.splits)

lemma quiet_cudaMalloc:
  "quiet t (trace m) \<Longrightarrow> quiet t (trace (snd (cudaMalloc E kind bytes m)))"
  by (auto simp: cudaMalloc_def intro!: quiet_and_then quiet_safe_call)

lemma quiet_obs_shouldStop:
  "quiet t (trace m) \<Longrightarrow> quiet t (trace (snd (obs_shouldStop E m)))"
  by (auto simp: obs_shouldStop_def intro!: quiet_emit)

lemma quiet_obs_paused:
  "quiet t (trace m) \<Longrightarrow> quiet t (trace (snd (obs_paused E m)))"
  by (auto simp: obs_paused_def intro!: quiet_emit)

lemma quiet_compare_exchange:
  "quiet t (trace m) \<Longrightarrow> quiet t (trace (snd (compare_exchange_new_work E m)))"
  by (auto simp: compare_exchange_new_work_def Let_def emit_def quiet_def)

lemma quiet_run_ethash_search:
  "quiet t (trace m) \<Longrightarrow> quiet t (trace (run_ethash_search cfg i sn m))"
  by (auto simp: run_ethash_search_def intro!: quiet_emit)

lemma quiet_prime_streams:
  "quiet t (trace m) \<Longrightarrow> quiet t (trace (snd (prime_streams cfg js sn m)))"
proof (induction js arbitrary: sn m)
  case Nil
  then show ?case by simp
next
  case (Cons j js)
  show ?case
    by (simp add: Let_def) (intro Cons.IH quiet_run_ethash_search, simp add: Cons.prems)
qed

lemma quiet_extract_solutions:
  "quiet t (trace m) \<Longrightarrow> quiet t (trace (snd (extract_solutions E w nb buffer js m)))"
proof (induction js arbitrary: m)
  case Nil
  then show ?case by simp
next
  case (Cons j js)
  show ?case
  proof (cases "read_result buffer j")
    case None
    with Cons.prems show ?thesis by simp
  next
    case (Some r)
    then show ?thesis
      by simp (intro Cons.IH, simp add: quiet_emit Cons.prems)
  qed
qed

lemma quiet_cudaStreamSynchronize:
  "quiet t (trace m) \<Longrightarrow> quiet t (trace (snd (cudaStreamSynchronize E i m)))"
  by (auto simp: cudaStreamSynchronize_def intro!: quiet_and_then quiet_safe_call quiet_emit)

lemma quiet_process_stream:
  "quiet t (trace m) \<Longrightarrow> quiet t (trace (snd (process_stream E cfg w i d0 sn m)))"
  unfolding process_stream_def
  by (intro quiet_and_then quiet_cudaStreamSynchronize)
     (auto simp: obs_shouldStop_def store_new_work_false_def Let_def
       intro!: quiet_and_then quiet_extract_solutions quiet_run_ethash_search quiet_emit)

lemma quiet_search_streams:
  "quiet t (trace m) \<Longrightarrow> quiet t (trace (snd (search_streams E cfg w js d0 sn m)))"
proof (induction js arbitrary: d0 sn m t)
  case Nil
  then show ?case by simp
next
  case (Cons j js)
  show ?case
    by simp (intro quiet_and_then quiet_process_stream Cons.prems Cons.IH quiet_refl)
qed

lemma quiet_search_loop:
  "quiet t (trace m) \<Longrightarrow> quiet t (trace (snd (search_loop fuel E cfg w sn m)))"
proof (induction fuel arbitrary: sn m t)
  case 0
  then show ?case by simp
next
  case (Suc fuel)
  have IH: "quiet (trace m1) (trace (snd (search_loop fuel E cfg w sn1 m2)))"
    if "quiet (trace m1) (trace m2)" for m1 m2 sn1
    using that by (rule Suc.IH)
  show ?case
    using Suc.prems
    by (auto simp: Let_def compare_exchange_new_work_def obs_paused_def obs_shouldStop_def
          store_new_work_false_def split: prod.splits
        intro!: quiet_and_then quiet_search_streams quiet_emit IH)
qed


lemma quiet_wait_dag_load:
  "quiet t (trace m) \<Longrightarrow> quiet t (trace (snd (wait_dag_load fuel E m)))"
proof (induction fuel arbitrary: m)
  case 0
  then show ?case by simp
next
  case (Suc fuel)
  show ?case
    using Suc.prems by (auto simp: Let_def intro!: Suc.IH quiet_emit)
qed

lemma quiet_getNumDevices:
  "quiet t (trace m) \<Longrightarrow> quiet t (trace (snd (getNumDevices E m)))"
  by (auto simp: getNumDevices_def Let_def intro!: quiet_emit split: prod.splits cudaError.splits)

lemma quiet_create_mining_buffers:
  "quiet t (trace m) \<Longrightarrow> quiet t (trace (snd (create_mining_buffers E js m)))"
proof (induction js arbitrary: m t)
  case Nil
  then show ?case by simp
next
  case (Cons j js)
  show ?case
    by simp (intro quiet_and_then quiet_safe_call Cons.prems Cons.IH quiet_refl, simp_all)
qed

lemma quiet_reset_for_dag:
  "quiet t (trace m) \<Longrightarrow>
     quiet t (trace (snd (reset_for_dag E cfg dev device_props dagNumItems dagSize m)))"
  by (auto simp: reset_for_dag_def intro!: quiet_and_then quiet_safe_call quiet_emit)

lemma quiet_load_dag:
  "quiet t (trace m) \<Longrightarrow> quiet t (trace (snd (load_dag E cfg dev device_props context m)))"
  by (auto simp: load_dag_def Let_def
      intro!: quiet_and_then quiet_safe_call quiet_cudaMalloc quiet_create_mining_buffers quiet_emit)

lemma quiet_init_device:
  "quiet t (trace m) \<Longrightarrow> quiet t (trace (snd (init_device E cfg ep m)))"
  by (auto simp: init_device_def Let_def
      intro!: quiet_and_then quiet_safe_call quiet_getNumDevices quiet_reset_for_dag
        quiet_load_dag quiet_emit)

lemma quiet_init:
  "quiet t (trace m) \<Longrightarrow> quiet t (trace (snd (init fuel E cfg ep m)))"
  by (auto simp: init_def obs_shouldStop_def Let_def
      intro!: quiet_and_then quiet_wait_dag_load quiet_init_device quiet_emit)

lemma target_step_quiet:
  "list_all (\<lambda>e. \<not> job_or_target e) v \<Longrightarrow> foldl target_step s v = s"
proof (induction v arbitrary: s)
  case Nil
  show ?case by simp
next
  case (Cons e v)
  obtain job ok where s: "s = (job, ok)" by (cases s)
  from Cons.prems have "target_step (job, ok) e = (job, ok)" by (cases e) simp_all
  with Cons s show ?case by simp
qed

lemma search_trace:
  "\<exists>v. trace (snd (search fuel E cfg hdr tgt sn w m)) =
          trace m @ SetHeader hdr # (if m_current_target m = tgt then [] else [SetTarget tgt]) @ v \<and>
        list_all (\<lambda>e. \<not> job_or_target e) v"
proof -
  define m2 where "m2 = (if m_current_target m \<noteq> tgt
      then (emit (SetTarget tgt) (emit (SetHeader hdr) m))\<lparr>m_current_target := tgt\<rparr>
      else emit (SetHeader hdr) m)"
  have t2: "trace m2 = trace m @ SetHeader hdr # (if m_current_target m = tgt then [] else [SetTarget tgt])"
    by (simp add: m2_def emit_def)
  have "search fuel E cfg hdr tgt sn w m =
      search_loop fuel E cfg w (fst (prime_streams cfg [0..<unat (s_numStreams cfg)] sn m2))
        (snd (prime_streams cfg [0..<unat (s_numStreams cfg)] sn m2))"
    by (simp add: search_def Let_def m2_def emit_def case_prod_beta)
  then have "quiet (trace m2) (trace (snd (search fuel E cfg hdr tgt sn w m)))"
    by (simp add: quiet_search_loop quiet_prime_streams)
  then show ?thesis
    unfolding quiet_def t2 by auto
qed


lemma target_step_search:
  "foldl target_step (Some w, True)
     (SetHeader hdr # (if held = upper64OfBoundary w then [] else [SetTarget (upper64OfBoundary w)]) @ v)
   = foldl target_step (Some w, True) v"
  by simp

lemma and_then_stops:
  "(\<And>a. r \<noteq> Returned a) \<Longrightarrow> and_then (r, m) f = (r', m') \<Longrightarrow> m' = m"
  by (cases r) auto

lemma workLoop_loop_targets:
  "\<exists>v job'. trace (snd (workLoop_loop fuel E cfg current m)) = trace m @ v \<and>
     foldl target_step (job, True) v = (job', True)"
proof (induction fuel arbitrary: current m job)
  case 0
  show ?case by simp
next
  case (Suc fuel)
  define m1 where "m1 = tick (emit (ObsShouldStop (shouldStop E (clock m))) m)"
  define j where "j = getWork E (clock m1)"
  define m2 where "m2 = tick (emit (ObsWork j) m1)"
  have t2: "trace m2 = trace m @ [ObsShouldStop (shouldStop E (clock m)), ObsWork j]"
    by (simp add: m2_def m1_def emit_def)
  show ?case
  proof (cases "shouldStop E (clock m)")
    case True
    then have "workLoop_loop (Suc fuel) E cfg current m = (Returned (), m1)"
      by (simp add: obs_shouldStop_def m1_def)
    then show ?thesis
      by (intro exI[of _ "[ObsShouldStop True]"] exI[of _ job]) (simp add: m1_def emit_def True)
  next
    case False
    then have step: "workLoop_loop (Suc fuel) E cfg current m =
        (case j of
           None \<Rightarrow> workLoop_loop fuel E cfg current (emit TimedWait m2)
         | Some w \<Rightarrow>
             if epoch current \<noteq> epoch w then
               and_then (init fuel E cfg (epoch w) m2) (\<lambda>ok m3.
                 if \<not> ok then (Returned (), m3) else workLoop_loop fuel E cfg w m3)
             else
               and_then (search fuel E cfg (header w) (upper64OfBoundary w) (startNonce w) w m2)
                 (\<lambda>_ m3. workLoop_loop fuel E cfg w m3))"
      by (simp add: obs_shouldStop_def Let_def m1_def j_def m2_def split: option.splits)
    have f2: "foldl target_step (job, True) ([ObsShouldStop (shouldStop E (clock m)), ObsWork j] @ u)
        = foldl target_step (j, True) u" for u
      by simp
    show ?thesis
    proof (cases j)
      case None
      from Suc.IH[of current "emit TimedWait m2" None] obtain v job' where
        v: "trace (snd (workLoop_loop fuel E cfg current (emit TimedWait m2))) = trace (emit TimedWait m2) @ v"
           "foldl target_step (None, True) v = (job', True)" by blast
      from step None v show ?thesis
        by (intro exI[of _ "[ObsShouldStop (shouldStop E (clock m)), ObsWork j] @ TimedWait # v"] exI[of _ job'])
           (simp add: t2 emit_def)
    next
      case (Some w)
      define r where "r = (if epoch current \<noteq> epoch w then
            (case init fuel E cfg (epoch w) m2 of (Returned ok, m3) \<Rightarrow> ok | _ \<Rightarrow> False)
          else (case search fuel E cfg (header w) (upper64OfBoundary w) (startNonce w) w m2 of
                  (Returned u, m3) \<Rightarrow> True | _ \<Rightarrow> False))"
      define m3 where "m3 = (if epoch current \<noteq> epoch w then snd (init fuel E cfg (epoch w) m2)
          else snd (search fuel E cfg (header w) (upper64OfBoundary w) (startNonce w) w m2))"
      have "\<exists>u. trace m3 = trace m2 @ u \<and> foldl target_step (Some w, True) u = (Some w, True)"
      proof (cases "epoch current \<noteq> epoch w")
        case True
        from quiet_init[OF quiet_refl, of m2 fuel E cfg "epoch w"] True
        show ?thesis by (auto simp: m3_def quiet_def target_step_quiet)
      next
        case False
        from search_trace[of fuel E cfg "header w" "upper64OfBoundary w" "startNonce w" w m2]
        obtain v where "trace m3 = trace m2 @ SetHeader (header w) #
            (if m_current_target m2 = upper64OfBoundary w then [] else [SetTarget (upper64OfBoundary w)]) @ v"
          "list_all (\<lambda>e. \<not> job_or_target e) v"
          using False by (auto simp: m3_def)
        then show ?thesis
          by (intro exI[of _ "SetHeader (header w) #
            (if m_current_target m2 = upper64OfBoundary w then [] else [SetTarget (upper64OfBoundary w)]) @ v"])
             (simp add: target_step_quiet)
      qed
      then obtain u where u: "trace m3 = trace m2 @ u"
        "foldl target_step (Some w, True) u = (Some w, True)" by blast
      have res: "snd (workLoop_loop (Suc fuel) E cfg current m) =
          (if r then snd (workLoop_loop fuel E cfg w m3) else m3)"
        unfolding step Some r_def m3_def
        by (auto simp: and_then_def split: prod.splits outcome.splits)
      show ?thesis
      proof (cases r)
        case True
        from Suc.IH[of w m3 "Some w"] obtain v job' where
          v: "trace (snd (workLoop_loop fuel E cfg w m3)) = trace m3 @ v"
             "foldl target_step (Some w, True) v = (job', True)" by blast
        from res True u v Some show ?thesis
          by (intro exI[of _ "[ObsShouldStop (shouldStop E (clock m)), ObsWork j] @ u @ v"] exI[of _ job'])
             (simp add: t2)
      next
        case False
        from res False u Some show ?thesis
          by (intro exI[of _ "[ObsShouldStop (shouldStop E (clock m)), ObsWork j] @ u"] exI[of _ "Some w"])
             (simp add: t2)
      qed
    qed
  qed
qed

lemma workLoop_trace:
  "\<exists>u. trace (snd (workLoop fuel E cfg current m)) =
          trace (snd (workLoop_loop fuel E cfg current m)) @ u \<and> (u = [] \<or> u = [CudaDeviceReset])"
  by (auto simp: workLoop_def workLoop_catch_def cuda_safe_call_def emit_def
      split: prod.splits outcome.splits option.splits exn.splits)

lemma workLoop_targets:
  "targets_from_jobs (new_events m (snd (workLoop fuel E cfg current m)))"
proof -
  from workLoop_loop_targets[of fuel E cfg current m None] obtain v job' where
    v: "trace (snd (workLoop_loop fuel E cfg current m)) = trace m @ v"
       "foldl target_step (None, True) v = (job', True)" by blast
  from workLoop_trace[of fuel E cfg current m] obtain u where
    u: "trace (snd (workLoop fuel E cfg current m)) = trace (snd (workLoop_loop fuel E cfg current m)) @ u"
       "u = [] \<or> u = [CudaDeviceReset]" by blast
  from u(2) have "foldl target_step (job', True) u = (job', True)" by auto
  with u(1) v show ?thesis
    by (simp add: targets_from_jobs_def new_events_def)
qed

lemma workLoop_loop_search_start:
  assumes "\<not> shouldStop E (clock m)" and "getWork E (Suc (clock m)) = Some w"
    and "epoch current = epoch w"
  shows "prefix (search_start w (m_current_target m))
           (new_events m (snd (workLoop_loop (Suc fuel) E cfg current m)))"
proof -
  define m2 where "m2 = tick (emit (ObsWork (Some w)) (tick (emit (ObsShouldStop False) m)))"
  define rs where "rs = search fuel E cfg (header w) (upper64OfBoundary w) (startNonce w) w m2"
  have t2: "trace m2 = trace m @ [ObsShouldStop False, ObsWork (Some w)]"
    and c2: "m_current_target m2 = m_current_target m"
    by (simp_all add: m2_def emit_def tick_def)
  from assms have step: "workLoop_loop (Suc fuel) E cfg current m =
      and_then rs (\<lambda>_ m3. workLoop_loop fuel E cfg w m3)"
    by (simp add: obs_shouldStop_def Let_def tick_def emit_def m2_def rs_def)
  from search_trace[of fuel E cfg "header w" "upper64OfBoundary w" "startNonce w" w m2]
  obtain v where v: "trace (snd rs) = trace m @ search_start w (m_current_target m) @ v"
    by (auto simp: rs_def t2 c2 search_start_def)
  have "\<exists>u. trace (snd (and_then rs (\<lambda>_ m3. workLoop_loop fuel E cfg w m3))) = trace (snd rs) @ u"
  proof (cases rs)
    case (Pair r ms)
    show ?thesis
    proof (cases r)
      case (Returned a)
      with Pair workLoop_loop_targets[of fuel E cfg w ms None] show ?thesis by auto
    qed (use Pair in simp_all)
  qed
  with v step show ?thesis
    by (auto simp: prefix_def new_events_def)
qed


lemma unat_upper64: "unat (upper64OfBoundary w) = unat (boundary w) div 2 ^ 192"
proof -
  have "unat (boundary w) < 2 ^ 256"
    using unsigned_less[of "boundary w"] by simp
  then have small: "unat (boundary w) div 2 ^ 192 < 2 ^ 64"
    by (simp add: less_mult_imp_div_less)
  have len: "LENGTH(64) = 64" by simp
  have "unat (upper64OfBoundary w) = take_bit 64 (unat (drop_bit 192 (boundary w)))"
    by (simp only: upper64OfBoundary_def unsigned_ucast_eq len)
  also have "unat (drop_bit 192 (boundary w)) = drop_bit 192 (unat (boundary w))"
    by (rule unat_drop_bit_eq)
  also have "drop_bit 192 (unat (boundary w)) = unat (boundary w) div 2 ^ 192"
    by (rule drop_bit_eq_div)
  also have "take_bit 64 (unat (boundary w) div 2 ^ 192) = unat (boundary w) div 2 ^ 192"
    using small by (simp only: take_bit_nat_eq_self)
  finally show ?thesis .
qed

subsection \<open>C1: the nonce ranges of one search\<close>

text \<open>
  C1 (as amended). In every run of \<open>search\<close>, whatever the environment does and however
  long the run lasts, the batches issued (the priming pass and every reissue) follow the
  round-robin order: the \<open>k\<close>-th batch goes to slot \<open>k mod N\<close> and starts at
  \<open>start_nonce + k * m_batch_size\<close> in 64-bit arithmetic, so the base advances by the batch
  size from one slot to the next and by \<open>N\<close> batch sizes from one batch of a slot to its
  next. As long as these ranges stay below \<open>2 ^ 64\<close> they advance, never overlap, and
  their union is the interval from \<open>start_nonce\<close> of as many batch sizes as batches were
  issued (\<open>r * N\<close> of them after \<open>r\<close> full rounds).
\<close>

theorem search_nonce_ranges:
  "let bs = issued (new_events m (snd (search fuel E cfg hdr target s w m)));
       B = m_batch_size m
   in round_robin (unat (s_numStreams cfg)) s B bs \<and>
      (unat s + length bs * unat B \<le> 2 ^ 64 \<longrightarrow> nonce_partition s B bs)"
proof -
  define bs where "bs = issued (new_events m (snd (search fuel E cfg hdr target s w m)))"
  from search_issued[of m fuel E cfg hdr target s w] obtain K where
    "bs = map (\<lambda>k. (k mod unat (s_numStreams cfg), s + of_nat k * ucast (m_batch_size m))) [0..<K]"
    by (auto simp: bs_def)
  then have "round_robin (unat (s_numStreams cfg)) s (m_batch_size m) bs"
    by (simp add: round_robin_def)
  then show ?thesis
    using round_robin_partition by (auto simp: Let_def bs_def)
qed

text \<open>
  Witness for C1: two streams, batches of two nonces from nonce 5, a pause after the first
  full round of the loop. Four batches are issued and they partition the interval from 5
  to 13.
\<close>

theorem search_nonce_ranges_witness:
  "issued (new_events (CUDAMiner cfg_two_streams 0)
     (snd (search 2 E_pause_later cfg_two_streams 1 0 5 job0 (CUDAMiner cfg_two_streams 0))))
     = [(0, 5), (1, 7), (0, 9), (1, 11)] \<and>
   round_robin 2 5 2 [(0, 5), (1, 7), (0, 9), (1, 11)] \<and>
   nonce_partition 5 2 [(0, 5), (1, 7), (0, 9), (1, 11)]"
proof -
  have bs: "issued (new_events (CUDAMiner cfg_two_streams 0)
     (snd (search 2 E_pause_later cfg_two_streams 1 0 5 job0 (CUDAMiner cfg_two_streams 0))))
     = [(0, 5), (1, 7), (0, 9), (1, 11)]"
    by code_simp
  have B: "m_batch_size (CUDAMiner cfg_two_streams 0) = 2"
    and N: "unat (s_numStreams cfg_two_streams) = 2"
    by (simp_all add: CUDAMiner_def cfg_two_streams_def cfg_one_stream_def)
  have h: "unat (5 :: 64 word) + length [(0::nat, 5::64 word), (1, 7), (0, 9), (1, 11)] * unat (2 :: 32 word)
             \<le> 2 ^ 64"
    by simp
  from search_nonce_ranges[where m = "CUDAMiner cfg_two_streams 0" and fuel = 2
      and E = E_pause_later and cfg = cfg_two_streams and hdr = 1 and target = 0 and s = 5
      and w = job0] h
  show ?thesis
    unfolding Let_def bs B N by simp
qed

text \<open>
  Counterexample to C1 as stated (for every start nonce the ranges advance and their union
  is the interval from it): one stream, batches of two nonces, start nonce \<open>2 ^ 64 - 1\<close>.
  The priming batch starts at \<open>2 ^ 64 - 1\<close> and the next one at 1, since \<open>start_nonce\<close>
  is a 64-bit counter.
\<close>

theorem search_nonce_ranges_counterexample:
  "\<not> nonce_partition (- 1) (m_batch_size (CUDAMiner cfg_one_stream 0))
       (issued (new_events (CUDAMiner cfg_one_stream 0)
          (snd (search 1 E_quiet cfg_one_stream 1 0 (- 1) job0 (CUDAMiner cfg_one_stream 0)))))"
proof
  have bs: "issued (new_events (CUDAMiner cfg_one_stream 0)
          (snd (search 1 E_quiet cfg_one_stream 1 0 (- 1) job0 (CUDAMiner cfg_one_stream 0))))
        = [(0, - 1), (0, 1)]"
    by code_simp
  assume "nonce_partition (- 1) (m_batch_size (CUDAMiner cfg_one_stream 0))
       (issued (new_events (CUDAMiner cfg_one_stream 0)
          (snd (search 1 E_quiet cfg_one_stream 1 0 (- 1) job0 (CUDAMiner cfg_one_stream 0)))))"
  then have "\<forall>k<2. \<forall>j<k.
      unat (snd ([(0::nat, - 1 :: 64 word), (0, 1)] ! j)) + unat (2 :: 32 word)
        \<le> unat (snd ([(0::nat, - 1 :: 64 word), (0, 1)] ! k))"
    unfolding bs by (simp add: nonce_partition_def CUDAMiner_def cfg_one_stream_def)
  from this[rule_format, of 1 0]
  have "unat (- 1 :: 64 word) + unat (2 :: 32 word) \<le> unat (1 :: 64 word)"
    by simp
  then show False by simp
qed

subsection \<open>C2: the solutions of a drain\<close>

text \<open>
  C2 (as amended). For every drain of a stream slot whose stream synchronises, with a
  result array of \<open>MAX_SEARCH_RESULTS\<close> (at least one) entries and a reported count
  \<open>k\<close>: exactly \<open>min k MAX_SEARCH_RESULTS\<close> solutions are handed over, one for each of
  the first entries in order, with the entry's mix, the job, the worker's index and a time
  stamp of its own, and the count of the slot's buffer is zero after the drain. Along a
  whole run of \<open>search\<close>, when \<open>m_streams_batch_size\<close> is the product of the batch size
  and the stream count and that product fits 32 bits, the nonce of every solution is the
  first nonce of the batch last issued to the slot plus the entry's \<open>gid\<close>: the run
  passes the drain check. What the nonces are when the product does not fit is left open
  here; the counterexample below shows them at one such input.
\<close>

theorem drain_solutions:
  "(cuda_status E (clock m) = None \<and>
    length (result (kernel_results E (clock m))) = unat (MAX_SEARCH_RESULTS cfg) \<and>
    0 < MAX_SEARCH_RESULTS cfg \<longrightarrow>
      (let buf = kernel_results E (clock m);
           k = min (unat (count buf)) (unat (MAX_SEARCH_RESULTS cfg));
           m' = snd (process_stream E cfg w i d0 sn m);
           sols = submitted (new_events m m')
       in length sols = k \<and>
          map mixHash sols = map mix (take k (result buf)) \<and>
          map work sols = replicate k w \<and>
          map midx sols = replicate k (m_index m) \<and>
          map tstamp sols = map (\<lambda>j. steady_clock_now E (clock m + 2 + j)) [0..<k] \<and>
          count (m_search_buf m' i) = 0)) \<and>
   (m_streams_batch_size m0 = m_batch_size m0 * s_numStreams cfg \<and>
    unat (m_batch_size m0) * unat (s_numStreams cfg) < 2 ^ 32 \<longrightarrow>
      drains_from_last_batch (MAX_SEARCH_RESULTS cfg)
        (new_events m0 (snd (search fuel E cfg hdr target s w m0))))"
proof (intro conjI impI)
  assume "m_streams_batch_size m0 = m_batch_size m0 * s_numStreams cfg \<and>
    unat (m_batch_size m0) * unat (s_numStreams cfg) < 2 ^ 32"
  then show "drains_from_last_batch (MAX_SEARCH_RESULTS cfg)
        (new_events m0 (snd (search fuel E cfg hdr target s w m0)))"
    using search_drain_check by blast
next
  assume h: "cuda_status E (clock m) = None \<and>
    length (result (kernel_results E (clock m))) = unat (MAX_SEARCH_RESULTS cfg) \<and>
    0 < MAX_SEARCH_RESULTS cfg"
  define buf where "buf = kernel_results E (clock m)"
  define fc where "fc = min (count buf) (MAX_SEARCH_RESULTS cfg)"
  obtain r m' where run: "process_stream E cfg w i d0 sn m = (r, m')"
    by (cases "process_stream E cfg w i d0 sn m")
  from h have ok: "cuda_status E (clock m) = None"
    and len: "length (result buf) = unat (MAX_SEARCH_RESULTS cfg)"
    and pos: "0 < MAX_SEARCH_RESULTS cfg" by (simp_all add: buf_def)
  have fc_le: "unat fc \<le> length (result buf)"
    by (simp add: fc_def len unat_min)
  have sols: "submitted (new_events m m') =
      Solutions_of E w (sn - ucast (m_streams_batch_size m)) (clock m + 2) (m_index m)
        (take (unat fc) (result buf))"
    using process_stream_submitted[OF run] ok by (simp add: buf_def fc_def)
  have zero: "fc = 0 \<Longrightarrow> count buf = 0"
    using pos by (auto simp: fc_def min_def split: if_splits)
  have "list_all (\<lambda>j. j < length (result buf)) [0..<unat fc]"
    using fc_le by (simp add: list_all_iff)
  with run have "count (m_search_buf m' i) = 0"
    unfolding process_stream_eq[OF ok] buf_def[symmetric] fc_def[symmetric]
    using zero by (auto simp: run_ethash_search_def emit_def split: if_splits)
  with sols fc_le show "let buf = kernel_results E (clock m);
           k = min (unat (count buf)) (unat (MAX_SEARCH_RESULTS cfg));
           m' = snd (process_stream E cfg w i d0 sn m);
           sols = submitted (new_events m m')
       in length sols = k \<and>
          map mixHash sols = map mix (take k (result buf)) \<and>
          map work sols = replicate k w \<and>
          map midx sols = replicate k (m_index m) \<and>
          map tstamp sols = map (\<lambda>j. steady_clock_now E (clock m + 2 + j)) [0..<k] \<and>
          count (m_search_buf m' i) = 0"
    by (simp add: Let_def run buf_def[symmetric] fc_def unat_min mixHash_Solutions_of
        work_Solutions_of midx_Solutions_of tstamp_Solutions_of min_absorb1 add.assoc)
qed

text \<open>
  Witness for C2: two streams, batches of two nonces from nonce 5, every buffer reports two
  results.
\<close>

theorem drain_solutions_witness:
  "length (submitted (new_events (CUDAMiner cfg_two_streams 0)
      (snd (process_stream E_found cfg_two_streams job0 0 False 9 (CUDAMiner cfg_two_streams 0))))) = 2 \<and>
   map tstamp (submitted (new_events (CUDAMiner cfg_two_streams 0)
      (snd (process_stream E_found cfg_two_streams job0 0 False 9 (CUDAMiner cfg_two_streams 0))))) = [2, 3] \<and>
   count (m_search_buf
      (snd (process_stream E_found cfg_two_streams job0 0 False 9 (CUDAMiner cfg_two_streams 0))) 0) = 0 \<and>
   drains_from_last_batch 4 (new_events (CUDAMiner cfg_two_streams 0)
      (snd (search 2 E_found cfg_two_streams 1 0 5 job0 (CUDAMiner cfg_two_streams 0))))"
proof -
  have E: "cuda_status E_found t = None" "steady_clock_now E_found t = t"
    "kernel_results E_found t = \<lparr>count = 2, result =
      [\<lparr>gid = 1, mix = 11\<rparr>, \<lparr>gid = 0, mix = 22\<rparr>, \<lparr>gid = 0, mix = 0\<rparr>, \<lparr>gid = 0, mix = 0\<rparr>]\<rparr>" for t
    by (simp_all add: E_found_def E_quiet_def)
  have C: "MAX_SEARCH_RESULTS cfg_two_streams = 4" "s_numStreams cfg_two_streams = 2"
    "m_batch_size (CUDAMiner cfg_two_streams 0) = 2"
    "m_streams_batch_size (CUDAMiner cfg_two_streams 0) = 4"
    "clock (CUDAMiner cfg_two_streams 0) = 0"
    by (simp_all add: CUDAMiner_def cfg_two_streams_def cfg_one_stream_def)
  have h1: "cuda_status E_found (clock (CUDAMiner cfg_two_streams 0)) = None \<and>
    length (result (kernel_results E_found (clock (CUDAMiner cfg_two_streams 0))))
      = unat (MAX_SEARCH_RESULTS cfg_two_streams) \<and>
    0 < MAX_SEARCH_RESULTS cfg_two_streams"
    by (simp add: E C)
  have h2: "m_streams_batch_size (CUDAMiner cfg_two_streams 0)
      = m_batch_size (CUDAMiner cfg_two_streams 0) * s_numStreams cfg_two_streams \<and>
    unat (m_batch_size (CUDAMiner cfg_two_streams 0)) * unat (s_numStreams cfg_two_streams) < 2 ^ 32"
    by (simp add: C)
  from drain_solutions[where E = E_found and cfg = cfg_two_streams and w = job0 and i = 0
      and ?d0.0 = False and sn = 9 and m = "CUDAMiner cfg_two_streams 0"
      and ?m0.0 = "CUDAMiner cfg_two_streams 0" and fuel = 2 and hdr = 1 and target = 0 and s = 5]
    h1 h2
  show ?thesis
    by (simp add: Let_def E C upt_conv_Cons)
qed

text \<open>
  Counterexamples to C2 as stated. A reported count of \<open>k\<close> does not give \<open>k\<close>
  solutions: with \<open>MAX_SEARCH_RESULTS = 4\<close> a buffer that reports five gives four,
  by the \<open>std::min\<close> of line 401. And the nonce is not always the first nonce of the
  slot's batch plus the \<open>gid\<close>: \<open>m_streams_batch_size\<close> is a product of three
  \<open>unsigned\<close> values, so with a grid of \<open>2 ^ 24\<close>, blocks of 128 and two streams it
  is 0, and the entries with \<open>gid\<close> 1 and 0 of the batch that slot 0 started at nonce 5
  are handed over with the nonces 4294967302 and 4294967301 instead of 6 and 5.
\<close>

theorem drain_solutions_counterexample:
  "unat (count (kernel_results E_overfull (clock (CUDAMiner cfg_one_stream 0)))) = 5 \<and>
   length (submitted (new_events (CUDAMiner cfg_one_stream 0)
      (snd (process_stream E_overfull cfg_one_stream job0 0 False 7 (CUDAMiner cfg_one_stream 0))))) = 4 \<and>
   m_streams_batch_size (CUDAMiner cfg_wide 0) = 0 \<and>
   take 10 (new_events (CUDAMiner cfg_wide 0)
      (snd (search 2 E_found cfg_wide 1 0 5 job0 (CUDAMiner cfg_wide 0))))
     = [SetHeader 1, RunEthashSearch 16777216 128 0 5 4,
        RunEthashSearch 16777216 128 1 2147483653 4, ObsNewWork False, ObsPaused False,
        CudaStreamSynchronize 0,
        ObsKernelResults 0 \<lparr>count = 2, result =
          [\<lparr>gid = 1, mix = 11\<rparr>, \<lparr>gid = 0, mix = 22\<rparr>, \<lparr>gid = 0, mix = 0\<rparr>, \<lparr>gid = 0, mix = 0\<rparr>]\<rparr>,
        ObsShouldStop False,
        SubmitProof \<lparr>nonce = 4294967302, mixHash = 11, work = job0, tstamp = 4, midx = 0\<rparr>,
        SubmitProof \<lparr>nonce = 4294967301, mixHash = 22, work = job0, tstamp = 5, midx = 0\<rparr>]"
  by code_simp

subsection \<open>C9: a drain produces at most MAX_SEARCH_RESULTS solutions\<close>

text \<open>
  C9. For every drain of a stream slot (one pass of the inner loop of \<open>search\<close>), with a
  result array of \<open>MAX_SEARCH_RESULTS\<close> entries: no entry outside the array is read, the
  number of solutions handed over is at most \<open>MAX_SEARCH_RESULTS\<close>, they come from the
  first \<open>min count MAX_SEARCH_RESULTS\<close> entries in order, and when the reported count
  exceeds \<open>MAX_SEARCH_RESULTS\<close> they are exactly the entries of the array, the rest of
  the reported count being dropped.
\<close>

theorem drain_bounded:
  assumes "length (result (kernel_results E (clock m))) = unat (MAX_SEARCH_RESULTS cfg)"
  shows "let buf = kernel_results E (clock m);
             run = process_stream E cfg w i d0 sn m;
             sols = submitted (new_events m (snd run))
         in fst run \<noteq> Raised out_of_bounds \<and>
            length sols \<le> unat (MAX_SEARCH_RESULTS cfg) \<and>
            (cuda_status E (clock m) = None \<longrightarrow>
               map mixHash sols = map mix (take (unat (min (count buf) (MAX_SEARCH_RESULTS cfg))) (result buf)) \<and>
               (MAX_SEARCH_RESULTS cfg < count buf \<longrightarrow> map mixHash sols = map mix (result buf)))"
proof -
  obtain r m' where run: "process_stream E cfg w i d0 sn m = (r, m')"
    by (cases "process_stream E cfg w i d0 sn m")
  have le: "unat (min (count (kernel_results E (clock m))) (MAX_SEARCH_RESULTS cfg))
          \<le> unat (MAX_SEARCH_RESULTS cfg)"
    by (simp add: word_le_nat_alt[symmetric])
  have big: "unat (min (count (kernel_results E (clock m))) (MAX_SEARCH_RESULTS cfg))
          = unat (MAX_SEARCH_RESULTS cfg)" if "MAX_SEARCH_RESULTS cfg < count (kernel_results E (clock m))"
    using that by (simp add: min_absorb2 less_imp_le)
  from process_stream_submitted[OF run] process_stream_in_bounds[OF run assms] le big assms
  show ?thesis
    by (auto simp: Let_def run mixHash_Solutions_of split: option.splits)
qed

text \<open>
  Witness for C9: a buffer of four entries that reports a count of five. Four solutions
  are handed over, with the mixes of the four entries.
\<close>

theorem drain_bounded_witness:
  "fst (process_stream E_overfull cfg_one_stream job0 0 False 7 (CUDAMiner cfg_one_stream 0))
      \<noteq> Raised out_of_bounds \<and>
   length (submitted (new_events (CUDAMiner cfg_one_stream 0)
      (snd (process_stream E_overfull cfg_one_stream job0 0 False 7 (CUDAMiner cfg_one_stream 0))))) \<le> 4 \<and>
   map mixHash (submitted (new_events (CUDAMiner cfg_one_stream 0)
      (snd (process_stream E_overfull cfg_one_stream job0 0 False 7 (CUDAMiner cfg_one_stream 0)))))
     = [11, 22, 33, 44]"
proof -
  have E: "cuda_status E_overfull t = None"
    "kernel_results E_overfull t = \<lparr>count = 5, result =
      [\<lparr>gid = 1, mix = 11\<rparr>, \<lparr>gid = 2, mix = 22\<rparr>, \<lparr>gid = 3, mix = 33\<rparr>, \<lparr>gid = 4, mix = 44\<rparr>]\<rparr>" for t
    by (simp_all add: E_overfull_def E_quiet_def)
  have C: "MAX_SEARCH_RESULTS cfg_one_stream = 4"
    by (simp add: cfg_one_stream_def)
  have h: "length (result (kernel_results E_overfull (clock (CUDAMiner cfg_one_stream 0))))
      = unat (MAX_SEARCH_RESULTS cfg_one_stream)"
    by (simp add: E C)
  from drain_bounded[OF h, where w = job0 and i = 0 and ?d0.0 = False and sn = 7]
  show ?thesis
    by (simp add: Let_def E C)
qed

subsection \<open>C5: the new-work flag\<close>

text \<open>
  C5 (as amended). In every run of \<open>search\<close> the new-work flag is consumed (found set and
  cleared by the compare-exchange) by at most one iteration of the loop, and once an
  iteration has seen the flag, a pause or a shutdown and so marked the round done, no
  further batch is issued to any slot and no further iteration starts.
\<close>

theorem new_work_flag_single_use:
  "let t = new_events m (snd (search fuel E cfg hdr target s w m))
   in flag_single_use t \<and> length (filter consumes t) \<le> 1"
proof -
  from search_flag[of m fuel E cfg hdr target s w] obtain mk' where
    f: "foldl flag_step (False, True) (new_events m (snd (search fuel E cfg hdr target s w m)))
            = (mk', True)" by blast
  from flag_consumed_bound[OF f] f show ?thesis
    by (simp add: flag_single_use_def Let_def)
qed

text \<open>
  Witness for C5: new work arrives during the first round; the second iteration consumes
  the flag, issues nothing and the search returns.
\<close>

theorem new_work_flag_single_use_witness:
  "fst (search 3 E_kick_later cfg_two_streams 1 0 5 job0 (CUDAMiner cfg_two_streams 0)) = Returned () \<and>
   length (filter consumes (new_events (CUDAMiner cfg_two_streams 0)
     (snd (search 3 E_kick_later cfg_two_streams 1 0 5 job0 (CUDAMiner cfg_two_streams 0))))) = 1 \<and>
   flag_single_use (new_events (CUDAMiner cfg_two_streams 0)
     (snd (search 3 E_kick_later cfg_two_streams 1 0 5 job0 (CUDAMiner cfg_two_streams 0))))"
proof -
  have "fst (search 3 E_kick_later cfg_two_streams 1 0 5 job0 (CUDAMiner cfg_two_streams 0)) = Returned () \<and>
   length (filter consumes (new_events (CUDAMiner cfg_two_streams 0)
     (snd (search 3 E_kick_later cfg_two_streams 1 0 5 job0 (CUDAMiner cfg_two_streams 0))))) = 1"
    by code_simp
  with new_work_flag_single_use[where m = "CUDAMiner cfg_two_streams 0" and fuel = 3
      and E = E_kick_later and cfg = cfg_two_streams and hdr = 1 and target = 0 and s = 5 and w = job0]
  show ?thesis by (simp add: Let_def)
qed

text \<open>
  Counterexample to C5 as stated (exactly one iteration consumes the flag in every
  execution): with mining paused and no new work the search returns and no iteration has
  consumed the flag.
\<close>

theorem new_work_flag_counterexample:
  "fst (search 3 E_paused cfg_two_streams 1 0 5 job0 (CUDAMiner cfg_two_streams 0)) = Returned () \<and>
   length (filter consumes (new_events (CUDAMiner cfg_two_streams 0)
     (snd (search 3 E_paused cfg_two_streams 1 0 5 job0 (CUDAMiner cfg_two_streams 0))))) = 0"
  by code_simp

subsection \<open>C3: insufficient device memory\<close>

text \<open>
  C3. When the dataset must be rebuilt (the item count of the epoch differs from the one
  held, or no dataset is held) and the dataset size of the epoch exceeds the total global
  memory of the selected device, \<open>init\<close> returns false without any allocation (device
  memory, pinned buffers or streams) and without touching the pointers it holds, and the
  last thing it does is to report the memory found and the memory required. This is for a
  call that gets to the check: the barrier lets the worker through, no shutdown is
  requested, a device is present and the runtime calls succeed.
\<close>

theorem init_insufficient_memory:
  fixes n :: int
  assumes "barrier_passes fuel E cfg m" and "\<forall>t. \<not> shouldStop E t"
    and "\<forall>t. cudaGetDeviceCount E t = (cudaSuccess, n)" and "(word_of_int n :: 32 word) \<noteq> 0"
    and "\<forall>t. cuda_status E t = None"
    and "word_of_int (full_dataset_num_items (get_global_epoch_context E ep)) \<noteq> m_dag_size m \<or> m_dag m = 0"
    and "totalGlobalMem (deviceProps E (selected_device cfg m (word_of_int n)))
           < get_full_dataset_size E (full_dataset_num_items (get_global_epoch_context E ep))"
  shows "let props = deviceProps E (selected_device cfg m (word_of_int n));
             required = get_full_dataset_size E (full_dataset_num_items (get_global_epoch_context E ep));
             run = init fuel E cfg ep m;
             t = new_events m (snd run)
         in fst run = Returned False \<and>
            list_all (\<lambda>e. \<not> allocates e) t \<and>
            last t = Log (LogInsufficientMemory (name props) (totalGlobalMem props) required) \<and>
            m_dag (snd run) = m_dag m \<and> m_light (snd run) = m_light m"
proof -
  from init_after_barrier[OF assms(1,2)] obtain m1 w where
    eq: "init fuel E cfg ep m = init_device E cfg ep m1" and sm: "same_members m m1"
    and w: "trace m1 = trace m @ w" "list_all barrier_event w" by blast
  from sm assms(6) have rebuild: "word_of_int (full_dataset_num_items (get_global_epoch_context E ep)) \<noteq> m_dag_size m1 \<or> m_dag m1 = 0"
    by (simp add: same_members_def)
  from assms(7) have small: "totalGlobalMem (deviceProps E (selected_device cfg m1 (word_of_int n)))
           < get_full_dataset_size E (full_dataset_num_items (get_global_epoch_context E ep))"
    by (simp add: selected_device_same[OF sm])
  from w(2) have "list_all (\<lambda>e. \<not> allocates e) w"
    by (auto simp: list_all_iff barrier_event_not_allocates)
  with sm w(1) show ?thesis
    unfolding eq init_device_insufficient[OF assms(3,4,5) rebuild small]
    by (simp add: Let_def new_events_def selected_device_same[OF sm] same_members_def)
qed

text \<open>Witness for C3: a device with 1000 bytes and a dataset of 12800 bytes.\<close>

theorem init_insufficient_memory_witness:
  "fst (init 2 E_small_device cfg_two_streams 0 (CUDAMiner cfg_two_streams 0)) = Returned False \<and>
   list_all (\<lambda>e. \<not> allocates e)
     (new_events (CUDAMiner cfg_two_streams 0)
        (snd (init 2 E_small_device cfg_two_streams 0 (CUDAMiner cfg_two_streams 0)))) \<and>
   last (new_events (CUDAMiner cfg_two_streams 0)
        (snd (init 2 E_small_device cfg_two_streams 0 (CUDAMiner cfg_two_streams 0))))
     = Log (LogInsufficientMemory ''gpu'' 1000 12800)"
proof -
  have E: "shouldStop E_small_device t = False" "cudaGetDeviceCount E_small_device t = (cudaSuccess, 1)"
    "cuda_status E_small_device t = None"
    "deviceProps E_small_device d = \<lparr>name = ''gpu'', major = 6, minor = 1, totalGlobalMem = 1000\<rparr>"
    "full_dataset_num_items (get_global_epoch_context E_small_device 0) = 100"
    "get_full_dataset_size E_small_device 100 = 12800" for t d
    by (simp_all add: E_small_device_def E_quiet_def)
  have h1: "barrier_passes 2 E_small_device cfg_two_streams (CUDAMiner cfg_two_streams 0)"
    by (simp add: barrier_passes_def cfg_two_streams_def cfg_one_stream_def)
  have h2: "\<forall>t. \<not> shouldStop E_small_device t"
    and h3: "\<forall>t. cudaGetDeviceCount E_small_device t = (cudaSuccess, 1)"
    and h4: "(word_of_int 1 :: 32 word) \<noteq> 0"
    and h5: "\<forall>t. cuda_status E_small_device t = None"
    by (simp_all add: E)
  have h6: "word_of_int (full_dataset_num_items (get_global_epoch_context E_small_device 0))
              \<noteq> m_dag_size (CUDAMiner cfg_two_streams 0) \<or> m_dag (CUDAMiner cfg_two_streams 0) = 0"
    by (simp add: CUDAMiner_def)
  have h7: "totalGlobalMem (deviceProps E_small_device
               (selected_device cfg_two_streams (CUDAMiner cfg_two_streams 0) (word_of_int 1)))
           < get_full_dataset_size E_small_device
               (full_dataset_num_items (get_global_epoch_context E_small_device 0))"
    by (simp add: E)
  from init_insufficient_memory[OF h1 h2 h3 h4 h5 h6 h7]
  show ?thesis by (simp add: Let_def E)
qed

subsection \<open>C4: reuse of the dataset buffer\<close>

text \<open>
  C4. For every call of \<open>init\<close> with an epoch whose item count equals the one held and
  with a dataset buffer present, in every environment: the device is not reset, nothing
  of the rebuild is done (no device flags, no dataset allocation, no streams, no dataset
  generation) and the dataset pointer is the same afterwards. And every call of \<open>init\<close>
  that returns true, reuse or not, has copied the light cache of the epoch into the light
  buffer it then holds for the device.
\<close>

theorem init_reuses_dag:
  "let ctx = get_global_epoch_context E ep;
       run = init fuel E cfg ep m;
       t = new_events m (snd run)
   in (word_of_int (full_dataset_num_items ctx) = m_dag_size m \<and> m_dag m \<noteq> 0 \<longrightarrow>
         list_all (\<lambda>e. \<not> rebuilds e) t \<and> m_dag (snd run) = m_dag m) \<and>
      (fst run = Returned True \<longrightarrow>
         CudaMemcpy (m_light (snd run) (m_device_num (snd run))) (light_cache ctx)
           (get_light_cache_size E (light_cache_num_items ctx)) \<in> set t)"
proof -
  define ctx where "ctx = get_global_epoch_context E ep"
  obtain r m' where run: "init fuel E cfg ep m = (r, m')" by (cases "init fuel E cfg ep m")
  from init_shape[of m fuel E cfg ep] obtain m1 w where sm: "same_members m m1"
    and w: "trace m1 = trace m @ w" "list_all barrier_event w"
    and cases: "init fuel E cfg ep m = init_device E cfg ep m1 \<or>
      init fuel E cfg ep m = (OutOfFuel, m1) \<or>
      init fuel E cfg ep m = (Returned False, emit (Log LogExiting) m1)" by blast
  from w(2) have nw: "list_all (\<lambda>e. \<not> rebuilds e) w"
    by (auto simp: list_all_iff barrier_event_not_rebuilds)
  have reuse: "list_all (\<lambda>e. \<not> rebuilds e) (new_events m m') \<and> m_dag m' = m_dag m"
    if h: "word_of_int (full_dataset_num_items ctx) = m_dag_size m" "m_dag m \<noteq> 0"
    using cases
  proof (elim disjE)
    assume "init fuel E cfg ep m = init_device E cfg ep m1"
    with run have id: "init_device E cfg ep m1 = (r, m')" by simp
    from h sm have "word_of_int (full_dataset_num_items (get_global_epoch_context E ep)) = m_dag_size m1"
      "m_dag m1 \<noteq> 0" by (simp_all add: same_members_def ctx_def)
    from init_device_reuse[OF id this] obtain v where "trace m' = trace m1 @ v"
      "list_all (\<lambda>e. \<not> rebuilds e) v" "m_dag m' = m_dag m1" by blast
    with w nw sm show ?thesis by (simp add: new_events_def same_members_def)
  next
    assume "init fuel E cfg ep m = (OutOfFuel, m1)"
    with run w nw sm show ?thesis by (simp add: new_events_def same_members_def)
  next
    assume "init fuel E cfg ep m = (Returned False, emit (Log LogExiting) m1)"
    with run w nw sm show ?thesis by (auto simp: new_events_def same_members_def emit_def)
  qed
  have copy: "CudaMemcpy (m_light m' (m_device_num m')) (light_cache ctx)
           (get_light_cache_size E (light_cache_num_items ctx)) \<in> set (new_events m m')"
    if h: "r = Returned True"
    using cases
  proof (elim disjE)
    assume "init fuel E cfg ep m = init_device E cfg ep m1"
    with run h have "init_device E cfg ep m1 = (Returned True, m')" by simp
    from init_device_copies[OF this] w show ?thesis
      by (auto simp: new_events_def ctx_def)
  next
    assume "init fuel E cfg ep m = (OutOfFuel, m1)"
    with run h show ?thesis by simp
  next
    assume "init fuel E cfg ep m = (Returned False, emit (Log LogExiting) m1)"
    with run h show ?thesis by simp
  qed
  from reuse copy show ?thesis
    by (simp add: Let_def run ctx_def)
qed

text \<open>
  Witness for C4: a worker that holds a dataset of 100 items and a light buffer at 7 is
  initialised for an epoch of 100 items.
\<close>

theorem init_reuses_dag_witness:
  "list_all (\<lambda>e. \<not> rebuilds e)
     (new_events m_loaded (snd (init 2 E_quiet cfg_two_streams 0 m_loaded))) \<and>
   m_dag (snd (init 2 E_quiet cfg_two_streams 0 m_loaded)) = 9 \<and>
   CudaMemcpy 7 7 640 \<in> set (new_events m_loaded (snd (init 2 E_quiet cfg_two_streams 0 m_loaded)))"
proof -
  have E: "full_dataset_num_items (get_global_epoch_context E_quiet 0) = 100"
    "light_cache (get_global_epoch_context E_quiet 0) = 7"
    "light_cache_num_items (get_global_epoch_context E_quiet 0) = 10"
    "get_light_cache_size E_quiet 10 = 640"
    by (simp_all add: E_quiet_def)
  have M: "m_dag_size m_loaded = 100" "m_dag m_loaded = 9"
    by (simp_all add: m_loaded_def)
  have r: "fst (init 2 E_quiet cfg_two_streams 0 m_loaded) = Returned True"
    "m_light (snd (init 2 E_quiet cfg_two_streams 0 m_loaded))
       (m_device_num (snd (init 2 E_quiet cfg_two_streams 0 m_loaded))) = 7"
    by code_simp+
  from init_reuses_dag[where E = E_quiet and ep = 0 and fuel = 2 and cfg = cfg_two_streams and m = m_loaded]
  show ?thesis by (simp add: Let_def E M r)
qed

subsection \<open>C6: shutdown at the sequential-load barrier\<close>

text \<open>
  C6 does not hold of the code. In sequential load mode, worker 1 waits while the shared
  load index stays at 0; a shutdown is requested from the start. Whatever the fuel,
  \<open>init\<close> does not return: the loop of the barrier tests the load index only, and
  \<open>shouldStop()\<close> is read after it.
\<close>

theorem init_barrier_ignores_shutdown:
  "fst (init fuel E_shutdown_at_barrier cfg_sequential ep (CUDAMiner cfg_sequential 1)) = OutOfFuel"
proof -
  have "\<forall>t. dagLoadIndex E_shutdown_at_barrier t < m_index (CUDAMiner cfg_sequential 1)"
    by (simp add: E_shutdown_at_barrier_def E_quiet_def CUDAMiner_def)
  from wait_dag_load_stuck[OF this, of fuel]
  obtain ma where "wait_dag_load fuel E_shutdown_at_barrier (CUDAMiner cfg_sequential 1) = (OutOfFuel, ma)"
    by (cases "wait_dag_load fuel E_shutdown_at_barrier (CUDAMiner cfg_sequential 1)") auto
  then show ?thesis
    by (simp add: init_def cfg_sequential_def cfg_two_streams_def cfg_one_stream_def)
qed

subsection \<open>C10: a device index past the last device\<close>

text \<open>
  C10. For a call of \<open>init\<close> that gets to the device selection (the barrier lets the
  worker through, no shutdown is requested, the device count is read and the runtime calls
  succeed): with no device \<open>init\<close> returns false and queries no device; with at least
  one device it goes on to query the device it selected, which is the last one
  (\<open>numDevices - 1\<close>) whenever the configured index (the override, or the worker's own
  index) is \<open>numDevices\<close> or more, and it returns true when the dataset is reused or
  fits the memory of that device.
\<close>

theorem init_selects_last_device:
  fixes n :: int
  assumes "barrier_passes fuel E cfg m" and "\<forall>t. \<not> shouldStop E t"
    and "\<forall>t. cudaGetDeviceCount E t = (cudaSuccess, n)" and "\<forall>t. cuda_status E t = None"
  shows "let numDevices = (word_of_int n :: 32 word);
             ctx = get_global_epoch_context E ep;
             run = init fuel E cfg ep m;
             t = new_events m (snd run)
         in (numDevices = 0 \<longrightarrow>
               fst run = Returned False \<and> (\<forall>d. CudaGetDeviceProperties d \<notin> set t)) \<and>
            (numDevices \<noteq> 0 \<longrightarrow>
               CudaGetDeviceProperties (m_device_num (snd run)) \<in> set t \<and>
               (numDevices \<le> configured_device cfg m \<longrightarrow> m_device_num (snd run) = numDevices - 1) \<and>
               ((word_of_int (full_dataset_num_items ctx) = m_dag_size m \<and> m_dag m \<noteq> 0) \<or>
                \<not> totalGlobalMem (deviceProps E (selected_device cfg m numDevices))
                    < get_full_dataset_size E (full_dataset_num_items ctx) \<longrightarrow>
                  fst run = Returned True))"
proof -
  define ctx where "ctx = get_global_epoch_context E ep"
  define numDevices :: "32 word" where "numDevices = word_of_int n"
  from init_after_barrier[OF assms(1,2)] obtain m1 w where
    eq: "init fuel E cfg ep m = init_device E cfg ep m1" and sm: "same_members m m1"
    and w: "trace m1 = trace m @ w" "list_all barrier_event w" by blast
  have nq: "CudaGetDeviceProperties d \<notin> set w" for d
    using w(2) by (auto simp: list_all_iff)
  note sel = selected_device_same[OF sm]
  have zero: "fst (init fuel E cfg ep m) = Returned False \<and>
      (\<forall>d. CudaGetDeviceProperties d \<notin> set (new_events m (snd (init fuel E cfg ep m))))"
    if "numDevices = 0"
    using that w(1) nq unfolding eq numDevices_def
    by (simp add: init_device_absent[OF assms(3)] new_events_def)
  have pos: "CudaGetDeviceProperties (selected_device cfg m numDevices)
        \<in> set (new_events m (snd (init fuel E cfg ep m))) \<and>
      m_device_num (snd (init fuel E cfg ep m)) = selected_device cfg m numDevices \<and>
      ((word_of_int (full_dataset_num_items ctx) = m_dag_size m \<and> m_dag m \<noteq> 0) \<or>
                \<not> totalGlobalMem (deviceProps E (selected_device cfg m numDevices))
                    < get_full_dataset_size E (full_dataset_num_items ctx) \<longrightarrow>
                  fst (init fuel E cfg ep m) = Returned True)"
    if n0: "numDevices \<noteq> 0"
  proof (cases "(word_of_int (full_dataset_num_items ctx) = m_dag_size m1 \<and> m_dag m1 \<noteq> 0) \<or>
                \<not> totalGlobalMem (deviceProps E (selected_device cfg m1 (word_of_int n)))
                    < get_full_dataset_size E (full_dataset_num_items ctx)")
    case True
    from init_device_succeeds[OF assms(3) n0[unfolded numDevices_def] assms(4) True[unfolded ctx_def]]
    obtain v where "fst (init_device E cfg ep m1) = Returned True"
      "m_device_num (snd (init_device E cfg ep m1)) = selected_device cfg m1 (word_of_int n)"
      "trace (snd (init_device E cfg ep m1)) =
                trace m1 @ [Log (LogInitialising (m_index m1)), ObsDeviceCount cudaSuccess n,
                           CudaGetDeviceProperties (selected_device cfg m1 (word_of_int n))] @ v"
      by blast
    with w(1) show ?thesis
      unfolding eq by (simp add: new_events_def sel numDevices_def)
  next
    case False
    then have rebuild: "word_of_int (full_dataset_num_items (get_global_epoch_context E ep)) \<noteq> m_dag_size m1 \<or> m_dag m1 = 0"
      and small: "totalGlobalMem (deviceProps E (selected_device cfg m1 (word_of_int n)))
           < get_full_dataset_size E (full_dataset_num_items (get_global_epoch_context E ep))"
      by (auto simp: ctx_def)
    from False sm have "\<not> ((word_of_int (full_dataset_num_items ctx) = m_dag_size m \<and> m_dag m \<noteq> 0) \<or>
                \<not> totalGlobalMem (deviceProps E (selected_device cfg m numDevices))
                    < get_full_dataset_size E (full_dataset_num_items ctx))"
      by (simp add: sel same_members_def numDevices_def)
    with w(1) show ?thesis
      unfolding eq init_device_insufficient[OF assms(3) n0[unfolded numDevices_def] assms(4) rebuild small]
      by (simp add: new_events_def sel numDevices_def)
  qed
  have last: "selected_device cfg m numDevices = numDevices - 1"
    if "numDevices \<noteq> 0" "numDevices \<le> configured_device cfg m"
    using last_device_selected[OF that] by (simp add: selected_device_def select_device_def)
  from zero pos last show ?thesis
    unfolding Let_def numDevices_def[symmetric] ctx_def[symmetric]
    by (cases "numDevices = 0") simp_all
qed

text \<open>Witness for C10: one device and a configured index of 5; device 0 is used.\<close>

theorem init_selects_last_device_witness:
  "m_device_num (snd (init 2 E_quiet cfg_device5 0 (CUDAMiner cfg_device5 0))) = 0 \<and>
   fst (init 2 E_quiet cfg_device5 0 (CUDAMiner cfg_device5 0)) = Returned True \<and>
   CudaGetDeviceProperties 0 \<in> set (new_events (CUDAMiner cfg_device5 0)
      (snd (init 2 E_quiet cfg_device5 0 (CUDAMiner cfg_device5 0))))"
proof -
  have E: "shouldStop E_quiet t = False" "cudaGetDeviceCount E_quiet t = (cudaSuccess, 1)"
    "cuda_status E_quiet t = None"
    "totalGlobalMem (deviceProps E_quiet d) = 8000000000"
    "full_dataset_num_items (get_global_epoch_context E_quiet 0) = 100"
    "get_full_dataset_size E_quiet 100 = 12800" for t d
    by (simp_all add: E_quiet_def)
  have h1: "barrier_passes 2 E_quiet cfg_device5 (CUDAMiner cfg_device5 0)"
    by (simp add: barrier_passes_def cfg_device5_def cfg_two_streams_def cfg_one_stream_def)
  have h2: "\<forall>t. \<not> shouldStop E_quiet t"
    and h3: "\<forall>t. cudaGetDeviceCount E_quiet t = (cudaSuccess, 1)"
    and h4: "\<forall>t. cuda_status E_quiet t = None"
    by (simp_all add: E)
  have c: "configured_device cfg_device5 (CUDAMiner cfg_device5 0) = 5"
    by (simp add: configured_device_def cfg_device5_def CUDAMiner_def)
  from init_selects_last_device[OF h1 h2 h3 h4, where ep = 0]
  show ?thesis by (auto simp: Let_def E c)
qed

subsection \<open>C7: the target is the upper 64 bits of the boundary\<close>

text \<open>
  C7. The target \<open>workLoop\<close> hands to \<open>search\<close> for a job is the upper 64 bits of the
  job's boundary: the boundary, read as a 256-bit unsigned number, divided by \<open>2 ^ 192\<close>.
  In every run of \<open>workLoop\<close>, every target written to the device is that value for the
  job \<open>work()\<close> returned last. And in every pass of the loop that finds no shutdown and
  gets a job of the epoch held, the job's header is written to the device next, and then
  that value as the target, unless it is the target the worker has set already.
\<close>

theorem target_is_upper64_of_boundary:
  "unat (upper64OfBoundary w) = unat (boundary w) div 2 ^ 192 \<and>
   targets_from_jobs (new_events m (snd (workLoop fuel E cfg current m))) \<and>
   (\<not> shouldStop E (clock m) \<and> getWork E (Suc (clock m)) = Some w \<and> epoch current = epoch w \<longrightarrow>
      prefix (search_start w (m_current_target m))
        (new_events m (snd (workLoop_loop (Suc fuel) E cfg current m))))"
  using unat_upper64[of w] workLoop_targets[of m fuel E cfg current]
    workLoop_loop_search_start[of E m w current fuel cfg]
  by blast

text \<open>
  Witness for C7: a boundary of \<open>3 * 2 ^ 192 + 5\<close> gives the target 3, and the pass
  that gets this job writes the target 3 to a device that held the target 0.
\<close>

theorem target_is_upper64_of_boundary_witness:
  "unat (upper64OfBoundary job_high) = 3 \<and>
   targets_from_jobs (new_events (CUDAMiner cfg_one_stream 0)
     (snd (workLoop 5 E_high cfg_one_stream no_job (CUDAMiner cfg_one_stream 0)))) \<and>
   prefix [ObsShouldStop False, ObsWork (Some job_high), SetHeader 1, SetTarget 3]
     (new_events (CUDAMiner cfg_one_stream 0)
        (snd (workLoop_loop 2 E_high cfg_one_stream job_high (CUDAMiner cfg_one_stream 0))))"
proof -
  have u: "upper64OfBoundary job_high = 3"
    by (simp add: upper64OfBoundary_def job_high_def drop_bit_eq_div)
  have c: "m_current_target (CUDAMiner cfg_one_stream 0) = 0" "clock (CUDAMiner cfg_one_stream 0) = 0"
    by (simp_all add: CUDAMiner_def)
  have e: "\<not> shouldStop E_high 0" "getWork E_high (Suc 0) = Some job_high"
    by (simp_all add: E_high_def E_stop_later_def E_quiet_def)
  from target_is_upper64_of_boundary[where w = job_high and fuel = 5 and E = E_high
      and cfg = cfg_one_stream and current = no_job and m = "CUDAMiner cfg_one_stream 0"]
  have a: "targets_from_jobs (new_events (CUDAMiner cfg_one_stream 0)
     (snd (workLoop 5 E_high cfg_one_stream no_job (CUDAMiner cfg_one_stream 0))))"
    and d: "unat (upper64OfBoundary job_high) = unat (boundary job_high) div 2 ^ 192"
    by simp_all
  from target_is_upper64_of_boundary[where w = job_high and fuel = 1 and E = E_high
      and cfg = cfg_one_stream and current = job_high and m = "CUDAMiner cfg_one_stream 0"]
  have b: "prefix (search_start job_high 0) (new_events (CUDAMiner cfg_one_stream 0)
        (snd (workLoop_loop 2 E_high cfg_one_stream job_high (CUDAMiner cfg_one_stream 0))))"
    by (simp add: c e numeral_2_eq_2)
  have "search_start job_high 0 = [ObsShouldStop False, ObsWork (Some job_high), SetHeader 1, SetTarget 3]"
    by (simp add: search_start_def u) (simp add: job_high_def)
  with a b d u show ?thesis by simp
qed

subsection \<open>C8: the exits of workLoop\<close>

text \<open>
  C8. When the loop of \<open>workLoop\<close> ends normally, the device is reset (the reset is the
  one call made after the loop, and \<open>workLoop\<close> returns when it succeeds). When a
  \<open>cuda_runtime_error\<close> is raised in the loop, \<open>workLoop\<close> raises a runtime error
  whose text is \<open>GPU error: \<close> followed by the text of the device error, and the state is
  the one the error left: no call, so no reset, is made after it. No exception of the loop
  is followed by a reset.
\<close>

theorem workLoop_exit:
  "(workLoop_loop fuel E cfg current m = (Returned (), m1) \<and> cuda_status E (clock m1) = None \<longrightarrow>
      fst (workLoop fuel E cfg current m) = Returned () \<and>
      new_events m1 (snd (workLoop fuel E cfg current m)) = [CudaDeviceReset]) \<and>
   (workLoop_loop fuel E cfg current m = (Raised (cuda_runtime_error what), m1) \<longrightarrow>
      workLoop fuel E cfg current m = (Raised (std_runtime_error (''GPU error: '' @ what)), m1)) \<and>
   (workLoop_loop fuel E cfg current m = (Raised e, m1) \<longrightarrow>
      snd (workLoop fuel E cfg current m) = m1)"
  by (auto simp: workLoop_def workLoop_catch_def cuda_safe_call_def new_events_def emit_def tick_def
      split: exn.splits)

text \<open>
  Witness for C8: a worker that initialises, searches and is shut down ends with the device
  reset; one whose first wait for a stream fails ends with the wrapped error, the failed
  wait being the last call.
\<close>

theorem workLoop_exit_witness:
  "fst (workLoop 5 E_stop_later cfg_one_stream no_job (CUDAMiner cfg_one_stream 0)) = Returned () \<and>
   last (trace (snd (workLoop 5 E_stop_later cfg_one_stream no_job (CUDAMiner cfg_one_stream 0))))
     = CudaDeviceReset \<and>
   workLoop 5 E_sync_fails cfg_one_stream no_job (CUDAMiner cfg_one_stream 0)
     = (Raised (std_runtime_error ''GPU error: boom''),
        snd (workLoop_loop 5 E_sync_fails cfg_one_stream no_job (CUDAMiner cfg_one_stream 0))) \<and>
   last (trace (snd (workLoop 5 E_sync_fails cfg_one_stream no_job (CUDAMiner cfg_one_stream 0))))
     = CudaStreamSynchronize 0"
proof -
  define m1 where "m1 = snd (workLoop_loop 5 E_stop_later cfg_one_stream no_job (CUDAMiner cfg_one_stream 0))"
  define m2 where "m2 = snd (workLoop_loop 5 E_sync_fails cfg_one_stream no_job (CUDAMiner cfg_one_stream 0))"
  have "fst (workLoop_loop 5 E_stop_later cfg_one_stream no_job (CUDAMiner cfg_one_stream 0)) = Returned ()"
    by code_simp
  then have h1: "workLoop_loop 5 E_stop_later cfg_one_stream no_job (CUDAMiner cfg_one_stream 0) = (Returned (), m1)"
    by (simp add: m1_def prod_eq_iff)
  have h1': "cuda_status E_stop_later (clock m1) = None"
    by (simp add: E_stop_later_def E_quiet_def)
  have "fst (workLoop_loop 5 E_sync_fails cfg_one_stream no_job (CUDAMiner cfg_one_stream 0))
          = Raised (cuda_runtime_error ''boom'')"
    by code_simp
  then have h2: "workLoop_loop 5 E_sync_fails cfg_one_stream no_job (CUDAMiner cfg_one_stream 0)
          = (Raised (cuda_runtime_error ''boom''), m2)"
    by (simp add: m2_def prod_eq_iff)
  have l2: "last (trace m2) = CudaStreamSynchronize 0"
    unfolding m2_def by code_simp
  from workLoop_exit[where fuel = 5 and E = E_stop_later and cfg = cfg_one_stream and current = no_job
      and m = "CUDAMiner cfg_one_stream 0" and ?m1.0 = m1] h1 h1'
  have a: "fst (workLoop 5 E_stop_later cfg_one_stream no_job (CUDAMiner cfg_one_stream 0)) = Returned ()"
    and b: "new_events m1 (snd (workLoop 5 E_stop_later cfg_one_stream no_job (CUDAMiner cfg_one_stream 0)))
              = [CudaDeviceReset]"
    by simp_all
  from b have "last (trace (snd (workLoop 5 E_stop_later cfg_one_stream no_job (CUDAMiner cfg_one_stream 0))))
     = CudaDeviceReset"
    by (metis append_take_drop_id last_snoc new_events_def)
  moreover from workLoop_exit[where fuel = 5 and E = E_sync_fails and cfg = cfg_one_stream
      and current = no_job and m = "CUDAMiner cfg_one_stream 0" and ?m1.0 = m2 and what = "''boom''"] h2
  have "workLoop 5 E_sync_fails cfg_one_stream no_job (CUDAMiner cfg_one_stream 0)
     = (Raised (std_runtime_error ''GPU error: boom''), m2)"
    by simp
  ultimately show ?thesis using a l2 by (simp add: m2_def)
qed

end
